theory Spec2Isabelle
  imports Complex_Main
begin

section \<open>Numbers, faults and array reads\<close>

text \<open>
  JavaScript numbers are modelled without rounding. In the functions that interpolate,
  sample and compare, up to the direction detection, a number is a mathematical real; the
  ways to leave the reals there, a division by zero and arithmetic on a missing array
  element, are made explicit as the fault \<open>NonFinite\<close>, and it is proved below that none
  of these functions ends in it. The fallback branch of the segment loop and the colour
  scale can divide by zero and carry on with the result; there a number is a \<open>jsnum\<close>,
  which has the infinities and \<open>NaN\<close>.

  The other faults are the exceptions of the source: \<open>TypeError\<close> is thrown when a
  property is read from \<open>undefined\<close> (an array read out of range followed by a field
  access or a method call), \<open>NotFoundError\<close> is the \<open>DOMException\<close> of \<open>insertBefore\<close>
  when the reference node is not a child of the node it is called on.
\<close>

datatype fault = TypeError | NotFoundError | NonFinite

type_synonym 'a result = "fault + 'a"

definition andThen :: "'a result \<Rightarrow> ('a \<Rightarrow> 'b result) \<Rightarrow> 'b result" where
  "andThen m f = (case m of Inl e \<Rightarrow> Inl e | Inr v \<Rightarrow> f v)"

definition jsDiv :: "real \<Rightarrow> real \<Rightarrow> real result" where
  "jsDiv a b = (if b = 0 then Inl NonFinite else Inr (a / b))"

text \<open>\<open>arr[i].field\<close>: reading a field of an element that is not there throws.\<close>

definition elemAt :: "'a list \<Rightarrow> nat \<Rightarrow> 'a result" where
  "elemAt xs i = (if i < length xs then Inr (xs ! i) else Inl TypeError)"

section \<open>Elevation interpolation\<close>

record routePoint =
  distance :: real
  elevation :: real

text \<open>
  The binary search of \<open>interpolateElevation\<close>:
  \<^verbatim>\<open>while (lo < hi - 1) { mid = floor((lo + hi) / 2);
       if (routePoints[mid].distance <= distance) lo = mid; else hi = mid; }\<close>
  It returns the final pair \<open>(lo, hi)\<close>.
\<close>

function bracketSearch :: "routePoint list \<Rightarrow> real \<Rightarrow> nat \<Rightarrow> nat \<Rightarrow> (nat \<times> nat) result" where
  "bracketSearch routePoints d lo hi =
     (if lo < hi - 1 then
        (let mid = (lo + hi) div 2 in
         case elemAt routePoints mid of
           Inl e \<Rightarrow> Inl e
         | Inr p \<Rightarrow>
             if distance p \<le> d then bracketSearch routePoints d mid hi
             else bracketSearch routePoints d lo mid)
      else Inr (lo, hi))"
  by pat_completeness auto
termination
  by (relation "measure (\<lambda>(routePoints, d, lo, hi). hi - lo)") auto

declare bracketSearch.simps [simp del]

definition interpolateElevation :: "routePoint list \<Rightarrow> real \<Rightarrow> real result" where
  "interpolateElevation routePoints d =
     (if length routePoints = 0 then Inr 0
      else andThen (elemAt routePoints 0) (\<lambda>first.
        if d \<le> distance first then Inr (elevation first)
        else andThen (elemAt routePoints (length routePoints - 1)) (\<lambda>lst.
          if d \<ge> distance lst then Inr (elevation lst)
          else andThen (bracketSearch routePoints d 0 (length routePoints - 1)) (\<lambda>(lo, hi).
            andThen (elemAt routePoints lo) (\<lambda>p1.
            andThen (elemAt routePoints hi) (\<lambda>p2.
            andThen (jsDiv (d - distance p1) (distance p2 - distance p1)) (\<lambda>t.
              Inr (elevation p1 + t * (elevation p2 - elevation p1)))))))))"

text \<open>The value \<open>interpolateElevation\<close> returns; by \<open>interpolateElevation_total\<close> it never faults.\<close>

definition elevationAt :: "routePoint list \<Rightarrow> real \<Rightarrow> real" where
  "elevationAt routePoints d = (case interpolateElevation routePoints d of Inr v \<Rightarrow> v | Inl e \<Rightarrow> 0)"

section \<open>Windowed gradient\<close>

definition computeGradientAtDistance :: "routePoint list \<Rightarrow> real \<Rightarrow> real \<Rightarrow> real \<Rightarrow> real result" where
  "computeGradientAtDistance routePoints d totalDistance windowSize =
     (let d1 = max 0 (d - windowSize);
          d2 = min totalDistance (d + windowSize)
      in andThen (interpolateElevation routePoints d1) (\<lambda>e1.
         andThen (interpolateElevation routePoints d2) (\<lambda>e2.
           let deltaD = d2 - d1
           in if deltaD \<le> 0 then Inr 0
              else andThen (jsDiv (e2 - e1) deltaD) (\<lambda>q. Inr (q * 100)))))"

text \<open>The series of a route travelled the other way: distances mirrored about the total
  distance, each sample keeping its elevation, in ascending order of the new distance.\<close>

definition mirrorSeries :: "real \<Rightarrow> routePoint list \<Rightarrow> routePoint list" where
  "mirrorSeries totalDistance routePoints =
     rev (map (\<lambda>p. \<lparr>distance = totalDistance - distance p, elevation = elevation p\<rparr>) routePoints)"

section \<open>Screen curve sampling\<close>

text \<open>A point of the on-screen polyline; \<open>px\<close> and \<open>py\<close> are the source's \<open>x\<close> and \<open>y\<close>.\<close>

record svgPoint =
  px :: real
  py :: real

text \<open>The scan of \<open>getSvgYAtX\<close>, \<open>for (i = 1; i < svgPoints.length; i++)\<close>, with the
  statement after the loop as its last branch.\<close>

function scanSvg :: "svgPoint list \<Rightarrow> real \<Rightarrow> nat \<Rightarrow> real result" where
  "scanSvg svgPoints targetX i =
     (if i < length svgPoints then
        (case elemAt svgPoints i of
           Inl e \<Rightarrow> Inl e
         | Inr p2 \<Rightarrow>
             if px p2 \<ge> targetX then
               andThen (elemAt svgPoints (i - 1)) (\<lambda>p1.
               andThen (jsDiv (targetX - px p1) (px p2 - px p1)) (\<lambda>t.
                 Inr (py p1 + t * (py p2 - py p1))))
             else scanSvg svgPoints targetX (i + 1))
      else andThen (elemAt svgPoints (length svgPoints - 1)) (\<lambda>p. Inr (py p)))"
  by pat_completeness auto
termination
  by (relation "measure (\<lambda>(svgPoints, targetX, i). length svgPoints - i)") auto

declare scanSvg.simps [simp del]

text \<open>\<open>None\<close> is the \<open>null\<close> returned for an empty curve.\<close>

definition getSvgYAtX :: "svgPoint list \<Rightarrow> real \<Rightarrow> real option result" where
  "getSvgYAtX svgPoints targetX =
     (if length svgPoints = 0 then Inr None
      else andThen (elemAt svgPoints 0) (\<lambda>first.
        if targetX \<le> px first then Inr (Some (py first))
        else andThen (elemAt svgPoints (length svgPoints - 1)) (\<lambda>lst.
          if targetX \<ge> px lst then Inr (Some (py lst))
          else andThen (scanSvg svgPoints targetX 1) (\<lambda>v. Inr (Some v)))))"

text \<open>Unary minus, as in \<open>-getSvgYAtX(svgPoints, x)\<close>: \<open>-null\<close> is zero.\<close>

definition negate :: "real option \<Rightarrow> real" where
  "negate v = (case v of None \<Rightarrow> 0 | Some r \<Rightarrow> - r)"

section \<open>Direction detection\<close>

text \<open>The loop of \<open>sumSquaredError\<close>; an element missing from \<open>arr2\<close> makes the sum \<open>NaN\<close>.\<close>

function sseLoop :: "real list \<Rightarrow> real list \<Rightarrow> nat \<Rightarrow> real \<Rightarrow> real result" where
  "sseLoop arr1 arr2 i s =
     (if i < length arr1 then
        (if i < length arr2 then
           (let df = arr1 ! i - arr2 ! i in sseLoop arr1 arr2 (i + 1) (s + df * df))
         else Inl NonFinite)
      else Inr s)"
  by pat_completeness auto
termination
  by (relation "measure (\<lambda>(arr1, arr2, i, s). length arr1 - i)") auto

declare sseLoop.simps [simp del]

definition sumSquaredError :: "real list \<Rightarrow> real list \<Rightarrow> real result" where
  "sumSquaredError arr1 arr2 = sseLoop arr1 arr2 0 0"

text \<open>\<open>Math.min(...arr)\<close> and \<open>Math.max(...arr)\<close> of a non-empty array.\<close>

definition jsMin :: "real list \<Rightarrow> real" where
  "jsMin arr = fold min (tl arr) (hd arr)"

definition jsMax :: "real list \<Rightarrow> real" where
  "jsMax arr = fold max (tl arr) (hd arr)"

text \<open>\<open>a || 1\<close> on a number: zero is replaced by one.\<close>

definition orOne :: "real \<Rightarrow> real" where
  "orOne a = (if a = 0 then 1 else a)"

text \<open>On the empty array \<open>map\<close> has nothing to divide; otherwise the divisor
  \<open>max - min || 1\<close> is not zero.\<close>

definition normalizeArray :: "real list \<Rightarrow> real list" where
  "normalizeArray arr =
     (if arr = [] then []
      else let mn = jsMin arr; mx = jsMax arr; range = orOne (mx - mn)
           in map (\<lambda>v. (v - mn) / range) arr)"

record candidate =
  cand_x :: real
  diff :: real

text \<open>Results of a left-to-right traversal; the first fault ends it.\<close>

fun collect :: "'a result list \<Rightarrow> 'a list result" where
  "collect [] = Inr []"
| "collect (r # rs) = andThen r (\<lambda>v. andThen (collect rs) (\<lambda>vs. Inr (v # vs)))"

definition candidateAt :: "routePoint list \<Rightarrow> real \<Rightarrow> nat \<Rightarrow> nat \<Rightarrow> candidate result" where
  "candidateAt routePoints totalDistance numCandidates i =
     andThen (jsDiv (real i) (real numCandidates)) (\<lambda>x.
     andThen (interpolateElevation routePoints (x * totalDistance)) (\<lambda>fwdElev.
     andThen (interpolateElevation routePoints ((1 - x) * totalDistance)) (\<lambda>revElev.
       Inr \<lparr>cand_x = x, diff = \<bar>fwdElev - revElev\<bar>\<rparr>)))"

text \<open>\<open>Array.prototype.sort\<close> is stable; with the comparator \<open>b.diff - a.diff\<close> it sorts
  by descending \<open>diff\<close>, which is the stable insertion sort on the key \<open>- diff\<close>.\<close>

definition findAsymmetricPositions :: "routePoint list \<Rightarrow> real \<Rightarrow> nat \<Rightarrow> candidate list result" where
  "findAsymmetricPositions routePoints totalDistance numCandidates =
     andThen (collect (map (candidateAt routePoints totalDistance numCandidates) [1..<numCandidates]))
       (\<lambda>candidates. Inr (sort_key (\<lambda>c. - diff c) candidates))"

datatype direction = Forward | Reverse

definition detectRouteDirection :: "svgPoint list \<Rightarrow> routePoint list \<Rightarrow> real \<Rightarrow> direction result" where
  "detectRouteDirection svgPoints routePoints totalDistance =
     andThen (findAsymmetricPositions routePoints totalDistance 100) (\<lambda>asymmetricPositions.
     andThen (elemAt asymmetricPositions 0) (\<lambda>top.
       if diff top < 1 then Inr Forward
       else
         let sampleXs = map cand_x (take 5 asymmetricPositions) in
         andThen (collect (map (\<lambda>x. andThen (getSvgYAtX svgPoints x) (\<lambda>v. Inr (negate v))) sampleXs))
           (\<lambda>svgElevs.
         andThen (collect (map (\<lambda>x. interpolateElevation routePoints (x * totalDistance)) sampleXs))
           (\<lambda>fwdElevs.
         andThen (collect (map (\<lambda>x. interpolateElevation routePoints ((1 - x) * totalDistance)) sampleXs))
           (\<lambda>revElevs.
           let svgNorm = normalizeArray svgElevs;
               fwdNorm = normalizeArray fwdElevs;
               revNorm = normalizeArray revElevs
           in andThen (sumSquaredError svgNorm fwdNorm) (\<lambda>fwdError.
              andThen (sumSquaredError svgNorm revNorm) (\<lambda>revError.
                Inr (if fwdError \<le> revError then Forward else Reverse))))))))"

section \<open>Numbers that may be infinite or NaN\<close>

text \<open>
  A \<open>jsnum\<close> is a real (\<open>Fin 0\<close> is the positive zero), the negative zero, an infinity
  or \<open>NaN\<close>. The operations follow IEEE 754 arithmetic except for rounding. The numbers
  read from the page, the route data and the settings are finite, and their zero is the
  positive one.
\<close>

datatype jsnum = Fin real | NegZero | PInf | NInf | NaN

fun finiteValue :: "jsnum \<Rightarrow> real option" where
  "finiteValue (Fin r) = Some r"
| "finiteValue NegZero = Some 0"
| "finiteValue PInf = None"
| "finiteValue NInf = None"
| "finiteValue NaN = None"

fun signBit :: "jsnum \<Rightarrow> bool" where
  "signBit (Fin r) = (r < 0)"
| "signBit NegZero = True"
| "signBit PInf = False"
| "signBit NInf = True"
| "signBit NaN = False"

definition signedZero :: "bool \<Rightarrow> jsnum" where
  "signedZero neg = (if neg then NegZero else Fin 0)"

definition signedInf :: "bool \<Rightarrow> jsnum" where
  "signedInf neg = (if neg then NInf else PInf)"

text \<open>The result of an operation whose exact value is \<open>r\<close>; \<open>neg\<close> is the sign that a
  zero result takes.\<close>

definition exact :: "real \<Rightarrow> bool \<Rightarrow> jsnum" where
  "exact r neg = (if r = 0 then signedZero neg else Fin r)"

text \<open>\<open>x * y\<close>: zero times infinity is \<open>NaN\<close>; otherwise the signs multiply.\<close>

definition jsMul :: "jsnum \<Rightarrow> jsnum \<Rightarrow> jsnum" where
  "jsMul x y =
     (if x = NaN \<or> y = NaN then NaN
      else case (finiteValue x, finiteValue y) of
             (Some a, Some b) \<Rightarrow> exact (a * b) (signBit x \<noteq> signBit y)
           | (Some a, None) \<Rightarrow> if a = 0 then NaN else signedInf (signBit x \<noteq> signBit y)
           | (None, Some b) \<Rightarrow> if b = 0 then NaN else signedInf (signBit x \<noteq> signBit y)
           | (None, None) \<Rightarrow> signedInf (signBit x \<noteq> signBit y))"

text \<open>\<open>x / y\<close>: zero by zero and infinity by infinity are \<open>NaN\<close>; anything else by zero is
  an infinity whose sign is the product of the signs.\<close>

definition jsDivide :: "jsnum \<Rightarrow> jsnum \<Rightarrow> jsnum" where
  "jsDivide x y =
     (if x = NaN \<or> y = NaN then NaN
      else case (finiteValue x, finiteValue y) of
             (Some a, Some b) \<Rightarrow>
               if b = 0 then (if a = 0 then NaN else signedInf (signBit x \<noteq> signBit y))
               else exact (a / b) (signBit x \<noteq> signBit y)
           | (Some a, None) \<Rightarrow> signedZero (signBit x \<noteq> signBit y)
           | (None, Some b) \<Rightarrow> signedInf (signBit x \<noteq> signBit y)
           | (None, None) \<Rightarrow> NaN)"

text \<open>\<open>x + y\<close>: opposite infinities give \<open>NaN\<close>; a zero sum is negative only when both
  summands are negative zeros.\<close>

definition jsAdd :: "jsnum \<Rightarrow> jsnum \<Rightarrow> jsnum" where
  "jsAdd x y =
     (if x = NaN \<or> y = NaN then NaN
      else case (finiteValue x, finiteValue y) of
             (Some a, Some b) \<Rightarrow> exact (a + b) (signBit x \<and> signBit y)
           | (Some a, None) \<Rightarrow> y
           | (None, Some b) \<Rightarrow> x
           | (None, None) \<Rightarrow> if x = y then x else NaN)"

fun jsNeg :: "jsnum \<Rightarrow> jsnum" where
  "jsNeg (Fin r) = exact (- r) True"
| "jsNeg NegZero = Fin 0"
| "jsNeg PInf = NInf"
| "jsNeg NInf = PInf"
| "jsNeg NaN = NaN"

definition jsSub :: "jsnum \<Rightarrow> jsnum \<Rightarrow> jsnum" where
  "jsSub x y = jsAdd x (jsNeg y)"

text \<open>\<open>x < y\<close> and \<open>x <= y\<close>: false when either side is \<open>NaN\<close>; the two zeros are equal.\<close>

definition jsLess :: "jsnum \<Rightarrow> jsnum \<Rightarrow> bool" where
  "jsLess x y =
     (x \<noteq> NaN \<and> y \<noteq> NaN \<and>
      (case (finiteValue x, finiteValue y) of
         (Some a, Some b) \<Rightarrow> a < b
       | (Some a, None) \<Rightarrow> y = PInf
       | (None, Some b) \<Rightarrow> x = NInf
       | (None, None) \<Rightarrow> x = NInf \<and> y = PInf))"

definition jsLessEq :: "jsnum \<Rightarrow> jsnum \<Rightarrow> bool" where
  "jsLessEq x y = (x \<noteq> NaN \<and> y \<noteq> NaN \<and> \<not> jsLess y x)"

section \<open>Colour scale\<close>

text \<open>The settings object; \<open>settings_distance\<close> is its field \<open>distance\<close>, the width of one
  colour band in percent.\<close>

record settings =
  colorStops :: "string list"
  settings_distance :: real

text \<open>\<open>str.slice(a, b)\<close> for \<open>0 \<le> a \<le> b\<close>.\<close>

definition slice :: "nat \<Rightarrow> nat \<Rightarrow> string \<Rightarrow> string" where
  "slice a b str = take (b - a) (drop a str)"

text \<open>Characters are told apart by their code: white space is TAB, LF, VT, FF, CR and
  space; the digits are \<open>0-9\<close> (48 to 57), \<open>a-f\<close> (97 to 102) and \<open>A-F\<close> (65 to 70).\<close>

definition isWhiteSpace :: "char \<Rightarrow> bool" where
  "isWhiteSpace c = (let k = (of_char c :: nat) in (9 \<le> k \<and> k \<le> 13) \<or> k = 32)"

definition hexDigitValue :: "char \<Rightarrow> nat option" where
  "hexDigitValue c =
     (let k = (of_char c :: nat) in
      if 48 \<le> k \<and> k \<le> 57 then Some (k - 48)
      else if 97 \<le> k \<and> k \<le> 102 then Some (k - 87)
      else if 65 \<le> k \<and> k \<le> 70 then Some (k - 55)
      else None)"

text \<open>\<open>parseInt(str, 16)\<close> on ASCII text: leading white space, a sign and a \<open>0x\<close> prefix
  are skipped, the longest run of hexadecimal digits is read, and \<open>None\<close> is \<open>NaN\<close>.\<close>

definition parseInt16 :: "string \<Rightarrow> int option" where
  "parseInt16 str =
     (let s1 = dropWhile isWhiteSpace str;
          sgn = (if take 1 s1 = ''-'' then - 1 else 1);
          s2 = (if take 1 s1 = ''+'' \<or> take 1 s1 = ''-'' then drop 1 s1 else s1);
          s3 = (if take 2 s2 = ''0x'' \<or> take 2 s2 = ''0X'' then drop 2 s2 else s2);
          ds = takeWhile (\<lambda>c. hexDigitValue c \<noteq> None) s3
      in if ds = [] then None
         else Some (sgn * int (foldl (\<lambda>acc c. 16 * acc + the (hexDigitValue c)) 0 ds)))"

text \<open>\<open>Math.round\<close> rounds halves up.\<close>

definition jsRound :: "real \<Rightarrow> int" where
  "jsRound r = \<lfloor>r + 1 / 2\<rfloor>"

text \<open>The digit of \<open>toString(16)\<close> for a value below 16: \<open>0-9\<close>, then \<open>a-f\<close>.\<close>

definition digitChar :: "nat \<Rightarrow> char" where
  "digitChar n = (if n < 10 then char_of (48 + n) else char_of (87 + n))"

function hexString :: "nat \<Rightarrow> string" where
  "hexString n = (if n < 16 then [digitChar n] else hexString (n div 16) @ [digitChar (n mod 16)])"
  by pat_completeness auto
termination
  by (relation "measure (\<lambda>n. n)") auto

declare hexString.simps [simp del]

text \<open>\<open>x.toString(16)\<close> of an integer or \<open>NaN\<close>, then \<open>.padStart(2, '0')\<close>.\<close>

definition toString16 :: "int option \<Rightarrow> string" where
  "toString16 v =
     (case v of
        None \<Rightarrow> ''NaN''
      | Some n \<Rightarrow> if n < 0 then ''-'' @ hexString (nat (- n)) else hexString (nat n))"

definition padStart2 :: "string \<Rightarrow> string" where
  "padStart2 str = replicate (2 - length str) (CHR ''0'') @ str"

text \<open>One colour channel of \<open>lerpColor\<close>, read at string offsets \<open>a\<close> to \<open>b\<close>.\<close>

definition lerpChannel :: "string \<Rightarrow> string \<Rightarrow> real \<Rightarrow> nat \<Rightarrow> nat \<Rightarrow> int option" where
  "lerpChannel color1 color2 t a b =
     (case (parseInt16 (slice a b color1), parseInt16 (slice a b color2)) of
        (Some c1, Some c2) \<Rightarrow> Some (jsRound (real_of_int c1 + (real_of_int c2 - real_of_int c1) * t))
      | _ \<Rightarrow> None)"

definition lerpColor :: "string \<Rightarrow> string \<Rightarrow> real \<Rightarrow> string" where
  "lerpColor color1 color2 t =
     (let r = lerpChannel color1 color2 t 1 3;
          g = lerpChannel color1 color2 t 3 5;
          b = lerpChannel color1 color2 t 5 7
      in ''#'' @ concat (map (\<lambda>x. padStart2 (toString16 x)) [r, g, b]))"

text \<open>\<open>settings.colorStops[k]\<close> handed to \<open>lerpColor\<close>, whose first use of the argument
  (\<open>color.slice\<close>) throws when the read gave \<open>undefined\<close>.\<close>

definition stopAt :: "string list \<Rightarrow> int \<Rightarrow> string result" where
  "stopAt stops k = (if 0 \<le> k \<and> nat k < length stops then Inr (stops ! nat k) else Inl TypeError)"

text \<open>The first two lines of \<open>gradientToColor\<close>: the gradient in band widths, clamped, and
  the index of the band it falls in.\<close>

definition clampNormalized :: "real \<Rightarrow> real" where
  "clampNormalized q = max (- 3) (min 3 q)"

definition bandOf :: "real \<Rightarrow> int" where
  "bandOf normalized = max (- 3) (min 2 \<lfloor>normalized\<rfloor>)"

text \<open>\<open>Math.max(-3, Math.min(3, q))\<close> of a number that may be infinite or \<open>NaN\<close>; \<open>None\<close>
  is \<open>NaN\<close>. The sign of a zero plays no part from here on.\<close>

definition clampNum :: "jsnum \<Rightarrow> real option" where
  "clampNum q =
     (case q of
        Fin r \<Rightarrow> Some (clampNormalized r)
      | NegZero \<Rightarrow> Some (clampNormalized 0)
      | PInf \<Rightarrow> Some 3
      | NInf \<Rightarrow> Some (- 3)
      | NaN \<Rightarrow> None)"

text \<open>
  \<open>gradientToColor\<close> on any number. When \<open>normalized\<close> is \<open>NaN\<close>, so are \<open>band\<close> and the two
  indices, both reads of \<open>settings.colorStops\<close> give \<open>undefined\<close>, and \<open>lerpColor\<close> throws
  at \<open>color1.slice\<close>.
\<close>

definition gradientToColorNum :: "settings \<Rightarrow> jsnum \<Rightarrow> string result" where
  "gradientToColorNum st g =
     (case clampNum (jsDivide g (Fin (settings_distance st))) of
        None \<Rightarrow> Inl TypeError
      | Some normalized \<Rightarrow>
          let band = bandOf normalized;
              t = normalized - real_of_int band
          in andThen (stopAt (colorStops st) (band + 3)) (\<lambda>color1.
             andThen (stopAt (colorStops st) (band + 4)) (\<lambda>color2.
               Inr (lerpColor color1 color2 t))))"

text \<open>\<open>gradientToColor\<close> on a finite gradient.\<close>

definition gradientToColor :: "settings \<Rightarrow> real \<Rightarrow> string result" where
  "gradientToColor st g = gradientToColorNum st (Fin g)"

section \<open>Segment gradients\<close>

text \<open>The route data object; \<open>rd_routePoints\<close> is \<open>None\<close> when the field is absent.\<close>

record routeData =
  rd_totalDistance :: real
  rd_minElev :: real
  rd_maxElev :: real
  rd_routePoints :: "routePoint list option"

text \<open>A polygon inserted into the chart for the pair \<open>(p1, p2)\<close>. The field \<open>gradient\<close> keeps
  the loop's local value from which \<open>fill\<close> was computed; it is not written to the page.\<close>

record polygon =
  p1_of :: svgPoint
  p2_of :: svgPoint
  gradient :: jsnum
  fill :: string

text \<open>The branch of the loop body that uses the route data.\<close>

definition routeGradient :: "routePoint list \<Rightarrow> real \<Rightarrow> bool \<Rightarrow> svgPoint \<Rightarrow> svgPoint \<Rightarrow> jsnum result" where
  "routeGradient routePoints totalDistance isReversed p1 p2 =
     (let centerX = (px p1 + px p2) / 2;
          d = (if isReversed then (1 - centerX) * totalDistance else centerX * totalDistance)
      in andThen (computeGradientAtDistance routePoints d totalDistance 50) (\<lambda>g.
           Inr (if isReversed then jsNeg (Fin g) else Fin g)))"

text \<open>\<open>while (startIdx > 0 && elevationPoints[startIdx].x > targetStartX) startIdx--\<close>\<close>

fun walkStart :: "svgPoint list \<Rightarrow> jsnum \<Rightarrow> nat \<Rightarrow> nat result" where
  "walkStart elevationPoints targetStartX 0 = Inr 0"
| "walkStart elevationPoints targetStartX (Suc n) =
     (case elemAt elevationPoints (Suc n) of
        Inl e \<Rightarrow> Inl e
      | Inr p \<Rightarrow> if jsLess targetStartX (Fin (px p)) then walkStart elevationPoints targetStartX n
                 else Inr (Suc n))"

text \<open>\<open>while (endIdx < elevationPoints.length - 1 && elevationPoints[endIdx].x < targetEndX) endIdx++\<close>\<close>

function walkEnd :: "svgPoint list \<Rightarrow> jsnum \<Rightarrow> nat \<Rightarrow> nat result" where
  "walkEnd elevationPoints targetEndX endIdx =
     (if endIdx < length elevationPoints - 1 then
        (case elemAt elevationPoints endIdx of
           Inl e \<Rightarrow> Inl e
         | Inr p \<Rightarrow> if jsLess (Fin (px p)) targetEndX then walkEnd elevationPoints targetEndX (endIdx + 1)
                    else Inr endIdx)
      else Inr endIdx)"
  by pat_completeness auto
termination
  by (relation "measure (\<lambda>(elevationPoints, targetEndX, endIdx). length elevationPoints - endIdx)") auto

declare walkEnd.simps [simp del]

text \<open>The fallback branch of the loop body; \<open>None\<close> is the \<open>continue\<close> taken when the
  widened span is not positive. A zero total distance makes \<open>minDX\<close> and the gradient
  infinite or \<open>NaN\<close>.\<close>

definition fallbackGradient ::
    "real \<Rightarrow> real \<Rightarrow> real \<Rightarrow> svgPoint list \<Rightarrow> nat \<Rightarrow> svgPoint \<Rightarrow> svgPoint \<Rightarrow> jsnum option result" where
  "fallbackGradient elevRange ySpan totalDistance elevationPoints i p1 p2 =
     (let yQuantum = Fin 0.001;
          maxGradientPerQuantum = Fin 1;
          minDX = jsDivide (jsMul (jsMul yQuantum (Fin elevRange)) (Fin 100))
                    (jsMul (jsMul (Fin ySpan) maxGradientPerQuantum) (Fin totalDistance));
          centerX = jsDivide (jsAdd (Fin (px p1)) (Fin (px p2))) (Fin 2);
          targetStartX = jsSub centerX (jsDivide minDX (Fin 2));
          targetEndX = jsAdd centerX (jsDivide minDX (Fin 2))
      in andThen (walkStart elevationPoints targetStartX i) (\<lambda>startIdx.
         andThen (walkEnd elevationPoints targetEndX (i + 1)) (\<lambda>endIdx.
         andThen (elemAt elevationPoints startIdx) (\<lambda>pStart.
         andThen (elemAt elevationPoints endIdx) (\<lambda>pEnd.
           let dY = jsSub (Fin (py pStart)) (Fin (py pEnd));
               dX = jsSub (Fin (px pEnd)) (Fin (px pStart))
           in if jsLessEq dX (Fin 0) then Inr None
              else Inr (Some (jsMul (jsDivide (jsMul dY (Fin elevRange))
                                       (jsMul (jsMul (Fin ySpan) dX) (Fin totalDistance)))
                                (Fin 100))))))))"

text \<open>The gradient of the loop body for index \<open>i\<close> with the pair it belongs to, or \<open>None\<close> on
  \<open>continue\<close>. \<open>useRoute\<close> is \<open>Some routePoints\<close> when \<open>useRouteData\<close> holds.\<close>

definition segmentGradient ::
    "routePoint list option \<Rightarrow> bool \<Rightarrow> real \<Rightarrow> real \<Rightarrow> real \<Rightarrow> svgPoint list \<Rightarrow> nat
      \<Rightarrow> (svgPoint \<times> svgPoint \<times> jsnum) option result" where
  "segmentGradient useRoute isReversed elevRange ySpan totalDistance elevationPoints i =
     andThen (elemAt elevationPoints i) (\<lambda>p1.
     andThen (elemAt elevationPoints (i + 1)) (\<lambda>p2.
     andThen (case useRoute of
                Some routePoints \<Rightarrow>
                  andThen (routeGradient routePoints totalDistance isReversed p1 p2) (\<lambda>g. Inr (Some g))
              | None \<Rightarrow> fallbackGradient elevRange ySpan totalDistance elevationPoints i p1 p2)
       (\<lambda>res. Inr (map_option (\<lambda>g. (p1, p2, g)) res))))"

text \<open>The body of the loop for index \<open>i\<close>: the polygon it makes, or \<open>None\<close> on \<open>continue\<close>.\<close>

definition segmentStep ::
    "settings \<Rightarrow> routePoint list option \<Rightarrow> bool \<Rightarrow> real \<Rightarrow> real \<Rightarrow> real \<Rightarrow> svgPoint list \<Rightarrow> nat
      \<Rightarrow> polygon option result" where
  "segmentStep st useRoute isReversed elevRange ySpan totalDistance elevationPoints i =
     andThen (segmentGradient useRoute isReversed elevRange ySpan totalDistance elevationPoints i)
       (\<lambda>res. case res of
          None \<Rightarrow> Inr None
        | Some (p1, p2, g) \<Rightarrow>
            andThen (gradientToColorNum st g) (\<lambda>color.
              Inr (Some \<lparr>p1_of = p1, p2_of = p2, gradient = g, fill = color\<rparr>)))"

text \<open>\<open>svg.insertBefore(polygon, strokePolyline)\<close>: the new polygon goes right before the
  active polyline, after the polygons inserted earlier. It throws when the polyline is
  not a child of the chart element itself.\<close>

definition insertBefore :: "bool \<Rightarrow> polygon list \<Rightarrow> polygon \<Rightarrow> polygon list result" where
  "insertBefore activeIsChild acc pg = (if activeIsChild then Inr (acc @ [pg]) else Inl NotFoundError)"

text \<open>\<open>for (i = 0; i < elevationPoints.length - 1; i++)\<close>: the polygons inserted so far, and
  the fault that ended the loop, if any.\<close>

function segmentLoop ::
    "settings \<Rightarrow> bool \<Rightarrow> routePoint list option \<Rightarrow> bool \<Rightarrow> real \<Rightarrow> real \<Rightarrow> real \<Rightarrow> svgPoint list
      \<Rightarrow> nat \<Rightarrow> polygon list \<Rightarrow> polygon list \<times> fault option" where
  "segmentLoop st activeIsChild useRoute isReversed elevRange ySpan totalDistance elevationPoints i acc =
     (if i < length elevationPoints - 1 then
        (case segmentStep st useRoute isReversed elevRange ySpan totalDistance elevationPoints i of
           Inl e \<Rightarrow> (acc, Some e)
         | Inr None \<Rightarrow>
             segmentLoop st activeIsChild useRoute isReversed elevRange ySpan totalDistance
               elevationPoints (i + 1) acc
         | Inr (Some pg) \<Rightarrow>
             (case insertBefore activeIsChild acc pg of
                Inl e \<Rightarrow> (acc, Some e)
              | Inr acc' \<Rightarrow>
                  segmentLoop st activeIsChild useRoute isReversed elevRange ySpan totalDistance
                    elevationPoints (i + 1) acc'))
      else (acc, None))"
  by pat_completeness auto
termination
  by (relation "measure (\<lambda>(st, activeIsChild, useRoute, isReversed, elevRange, ySpan, totalDistance,
        elevationPoints, i, acc). length elevationPoints - i)") auto

declare segmentLoop.simps [simp del]

text \<open>What the loop body contributes for index \<open>i\<close>, a fault counted as nothing.\<close>

definition stepPolygon ::
    "settings \<Rightarrow> routePoint list option \<Rightarrow> bool \<Rightarrow> real \<Rightarrow> real \<Rightarrow> real \<Rightarrow> svgPoint list \<Rightarrow> nat
      \<Rightarrow> polygon option" where
  "stepPolygon st useRoute isReversed elevRange ySpan tot eps i =
     (case segmentStep st useRoute isReversed elevRange ySpan tot eps i of
        Inr res \<Rightarrow> res
      | Inl e \<Rightarrow> None)"

text \<open>The gradient sample a polygon stands for: its pair of points and its gradient.\<close>

definition sampleOf :: "polygon \<Rightarrow> svgPoint \<times> svgPoint \<times> jsnum" where
  "sampleOf pg = (p1_of pg, p2_of pg, gradient pg)"

section \<open>Processing the chart\<close>

text \<open>
  A stroke polyline found by \<open>svg.querySelectorAll\<close>, which searches all descendants of
  the chart element: whether it is a child of the chart element itself, and its parsed
  points.
\<close>

record strokePolyline =
  directChild :: bool
  points_of :: "svgPoint list"

text \<open>
  What \<open>processElevationSVG\<close> reads and writes of the chart element: the flag
  \<open>dataset.gradientColored\<close>, the stroke polylines in document order (the last one is the
  active one), and the polygons among its descendants in document order. The \<open>display\<close>
  styles it sets on other polylines are left out.
\<close>

record svgElem =
  gradientColored :: bool
  strokePolylines :: "strokePolyline list"
  polygons :: "polygon list"

text \<open>\<open>useRouteData\<close>, as the route points to use when it holds.\<close>

definition useRouteData :: "routeData \<Rightarrow> routePoint list option" where
  "useRouteData rd =
     (case rd_routePoints rd of
        None \<Rightarrow> None
      | Some routePoints \<Rightarrow> if length routePoints > 1 then Some routePoints else None)"

text \<open>From the parsed points of the active polyline to the polygons inserted: scaling
  factors, the filter of baseline points, the direction, and the loop over segments.\<close>

definition colorSegments ::
    "settings \<Rightarrow> routeData \<Rightarrow> bool \<Rightarrow> svgPoint list \<Rightarrow> polygon list \<times> fault option" where
  "colorSegments st rd activeIsChild points =
     (let totalDistance = rd_totalDistance rd;
          elevRange = orOne (rd_maxElev rd - rd_minElev rd);
          yMin = jsMin (map py points);
          yMax = jsMax (map py points);
          ySpan = orOne (yMax - yMin);
          elevationPoints = filter (\<lambda>p. py p < 1) points
      in case useRouteData rd of
           Some routePoints \<Rightarrow>
             (case detectRouteDirection elevationPoints routePoints totalDistance of
                Inl e \<Rightarrow> ([], Some e)
              | Inr dir \<Rightarrow>
                  segmentLoop st activeIsChild (Some routePoints) (dir = Reverse) elevRange ySpan
                    totalDistance elevationPoints 0 [])
         | None \<Rightarrow>
             segmentLoop st activeIsChild None False elevRange ySpan totalDistance elevationPoints 0 [])"

text \<open>The route data is \<open>window._biketerraRouteData\<close>, the chart is the result of
  \<open>document.querySelector('svg.pathSVG')\<close>; both may be missing. The old polygons are
  removed before the loop; the flag is set only when the loop ran to its end.\<close>

definition processElevationSVG ::
    "settings \<Rightarrow> routeData option \<Rightarrow> svgElem option \<Rightarrow> svgElem option \<times> fault option" where
  "processElevationSVG st routeData svg =
     (case routeData of
        None \<Rightarrow> (svg, None)
      | Some rd \<Rightarrow>
          (case svg of
             None \<Rightarrow> (None, None)
           | Some s \<Rightarrow>
               if gradientColored s then (Some s, None)
               else if length (strokePolylines s) = 0 then (Some s, None)
               else
                 let active = last (strokePolylines s);
                     points = points_of active
                 in
                 if length points < 2 then (Some s, None)
                 else
                   (case colorSegments st rd (directChild active) points of
                      (polys, None) \<Rightarrow> (Some (s\<lparr>polygons := polys, gradientColored := True\<rparr>), None)
                    | (polys, Some e) \<Rightarrow> (Some (s\<lparr>polygons := polys\<rparr>), Some e))))"

section \<open>The direction rule in the specification's words\<close>

text \<open>
  The definitions of this section do not come from the source. They restate the decision
  rule as the specification words it, over mathematical sets, minima and sums, so that the
  source functions can be compared with them.
\<close>

text \<open>The value of the screen sampler, with \<open>null\<close> read as zero.\<close>

definition yAt :: "svgPoint list \<Rightarrow> real \<Rightarrow> real" where
  "yAt pts tx = (case getSvgYAtX pts tx of Inr (Some v) \<Rightarrow> v | _ \<Rightarrow> 0)"

text \<open>The forward/reverse asymmetry at a normalized position.\<close>

definition asymmetry :: "routePoint list \<Rightarrow> real \<Rightarrow> real \<Rightarrow> real" where
  "asymmetry rps tot x = \<bar>elevationAt rps (x * tot) - elevationAt rps ((1 - x) * tot)\<bar>"

text \<open>The 99 candidate positions 1/100, ..., 99/100.\<close>

definition candidatePositions :: "real list" where
  "candidatePositions = map (\<lambda>i. real i / 100) [1..<100]"

text \<open>The five most asymmetric candidates, ties kept in ascending position order.\<close>

definition topAsymmetric :: "routePoint list \<Rightarrow> real \<Rightarrow> real list" where
  "topAsymmetric rps tot = take 5 (sort_key (\<lambda>x. - asymmetry rps tot x) candidatePositions)"

text \<open>Min-max normalization to the unit interval; a constant sequence becomes zeros.\<close>

definition minMaxNormalize :: "real list \<Rightarrow> real list" where
  "minMaxNormalize xs =
     (if Max (set xs) = Min (set xs) then map (\<lambda>v. 0) xs
      else map (\<lambda>v. (v - Min (set xs)) / (Max (set xs) - Min (set xs))) xs)"

definition squaredDistance :: "real list \<Rightarrow> real list \<Rightarrow> real" where
  "squaredDistance xs ys = (\<Sum>(a, b)\<leftarrow>zip xs ys. (a - b)\<^sup>2)"

text \<open>The observed, forward-candidate and reverse-candidate sequences.\<close>

definition observedSeq :: "svgPoint list \<Rightarrow> routePoint list \<Rightarrow> real \<Rightarrow> real list" where
  "observedSeq svg rps tot = map (\<lambda>x. - yAt svg x) (topAsymmetric rps tot)"

definition forwardSeq :: "routePoint list \<Rightarrow> real \<Rightarrow> real list" where
  "forwardSeq rps tot = map (\<lambda>x. elevationAt rps (x * tot)) (topAsymmetric rps tot)"

definition reverseSeq :: "routePoint list \<Rightarrow> real \<Rightarrow> real list" where
  "reverseSeq rps tot = map (\<lambda>x. elevationAt rps ((1 - x) * tot)) (topAsymmetric rps tot)"

section \<open>Well-formed colours\<close>

text \<open>Not from the source: what a well-formed \<open>#rrggbb\<close> string is, and the lower-case
  spelling of a hexadecimal digit.\<close>

definition isHexColor :: "string \<Rightarrow> bool" where
  "isHexColor str = (length str = 7 \<and> hd str = CHR ''#'' \<and> list_all (\<lambda>c. hexDigitValue c \<noteq> None) (tl str))"

definition toLowerHex :: "char \<Rightarrow> char" where
  "toLowerHex c = (case hexDigitValue c of Some n \<Rightarrow> digitChar n | None \<Rightarrow> c)"

section \<open>Example inputs\<close>

text \<open>A symmetric climb and descent over one kilometre.\<close>

definition upDown :: "routePoint list" where
  "upDown = [\<lparr>distance = 0, elevation = 100\<rparr>, \<lparr>distance = 500, elevation = 150\<rparr>,
             \<lparr>distance = 1000, elevation = 100\<rparr>]"


text \<open>A climb of 10 m over 100 m.\<close>

definition climb :: "routePoint list" where
  "climb = [\<lparr>distance = 0, elevation = 0\<rparr>, \<lparr>distance = 100, elevation = 10\<rparr>]"

text \<open>A ramp over the first two metres of a 100 m route, and a screen curve that descends
  from left to right.\<close>

definition shortRamp :: "routePoint list" where
  "shortRamp = [\<lparr>distance = 0, elevation = 0\<rparr>, \<lparr>distance = 2, elevation = 10\<rparr>]"

definition descendingCurve :: "svgPoint list" where
  "descendingCurve = [\<lparr>px = 0, py = 1 / 5\<rparr>, \<lparr>px = 1, py = 4 / 5\<rparr>]"

text \<open>The default settings of the source.\<close>

definition defaultSettings :: settings where
  "defaultSettings =
     \<lparr>colorStops = [''#713071'', ''#0c4ae0'', ''#28eaed'', ''#24ca26'', ''#f1f060'', ''#d90916'',
                     ''#430102''],
      settings_distance = 7\<rparr>"

text \<open>Route data for the examples: the symmetric climb, the short ramp, and a route of a single
  point and no length.\<close>

definition upDownData :: routeData where
  "upDownData = \<lparr>rd_totalDistance = 1000, rd_minElev = 100, rd_maxElev = 150,
                  rd_routePoints = Some upDown\<rparr>"

definition rampData :: routeData where
  "rampData = \<lparr>rd_totalDistance = 100, rd_minElev = 0, rd_maxElev = 10,
                rd_routePoints = Some shortRamp\<rparr>"

definition pointData :: routeData where
  "pointData = \<lparr>rd_totalDistance = 0, rd_minElev = 5, rd_maxElev = 5,
                 rd_routePoints = Some [\<lparr>distance = 0, elevation = 5\<rparr>]\<rparr>"

text \<open>Screen curves: an arch between two baseline points, a flat line, and a line that
  rises from left to right (\<open>y\<close> grows downwards).\<close>

definition arch :: "svgPoint list" where
  "arch = [\<lparr>px = 0, py = 1\<rparr>, \<lparr>px = 0, py = 1 / 2\<rparr>, \<lparr>px = 1 / 2, py = 1 / 5\<rparr>,
           \<lparr>px = 1, py = 1 / 2\<rparr>, \<lparr>px = 1, py = 1\<rparr>]"

definition flatCurve :: "svgPoint list" where
  "flatCurve = [\<lparr>px = 0, py = 1 / 2\<rparr>, \<lparr>px = 1, py = 1 / 2\<rparr>]"

definition risingCurve :: "svgPoint list" where
  "risingCurve = [\<lparr>px = 0, py = 1 / 2\<rparr>, \<lparr>px = 1, py = 1 / 4\<rparr>]"

text \<open>Charts showing the arch: one with an older polyline and a polygon left from an
  earlier run, one without, and one whose polyline sits inside a group element.\<close>

definition staleChart :: svgElem where
  "staleChart =
     \<lparr>gradientColored = False,
      strokePolylines = [\<lparr>directChild = True, points_of = flatCurve\<rparr>,
                         \<lparr>directChild = True, points_of = arch\<rparr>],
      polygons = [\<lparr>p1_of = \<lparr>px = 0, py = 0\<rparr>, p2_of = \<lparr>px = 1, py = 0\<rparr>, gradient = Fin 3,
                    fill = ''#000000''\<rparr>]\<rparr>"

definition freshChart :: svgElem where
  "freshChart = \<lparr>gradientColored = False,
                  strokePolylines = [\<lparr>directChild = True, points_of = arch\<rparr>], polygons = []\<rparr>"

definition nestedChart :: svgElem where
  "nestedChart = \<lparr>gradientColored = False,
                   strokePolylines = [\<lparr>directChild = False, points_of = arch\<rparr>], polygons = []\<rparr>"

text \<open>Settings with other colours and another band width, and settings that lost their
  colour stops.\<close>

definition greySettings :: settings where
  "greySettings =
     \<lparr>colorStops = [''#000000'', ''#202020'', ''#404040'', ''#808080'', ''#a0a0a0'', ''#c0c0c0'',
                     ''#ffffff''],
      settings_distance = 4\<rparr>"

definition noStops :: settings where
  "noStops = \<lparr>colorStops = [], settings_distance = 7\<rparr>"

section \<open>Properties\<close>

subsection \<open>Faults and array reads\<close>

lemma andThen_Inr [simp]: "andThen (Inr v) f = f v"
  by (simp add: andThen_def)

lemma andThen_Inl [simp]: "andThen (Inl e) f = Inl e"
  by (simp add: andThen_def)

lemma elemAt_in_range [simp]: "i < length xs \<Longrightarrow> elemAt xs i = Inr (xs ! i)"
  by (simp add: elemAt_def)

lemma jsDiv_nonzero [simp]: "b \<noteq> 0 \<Longrightarrow> jsDiv a b = Inr (a / b)"
  by (simp add: jsDiv_def)

subsection \<open>The bracket found by the binary search\<close>

text \<open>Whatever the order of the samples, the search keeps \<open>distance (rps ! lo) \<le> d\<close> and
  \<open>d < distance (rps ! hi)\<close>, reads inside the array only, and ends on adjacent indices.\<close>

lemma bracketSearch_bracket:
  assumes "lo < hi" and "hi < length rps"
    and "distance (rps ! lo) \<le> d" and "d < distance (rps ! hi)"
  shows "\<exists>l. bracketSearch rps d lo hi = Inr (l, Suc l) \<and> lo \<le> l \<and> Suc l \<le> hi
           \<and> distance (rps ! l) \<le> d \<and> d < distance (rps ! Suc l)"
  using assms
proof (induction rps d lo hi rule: bracketSearch.induct)
  case (1 rps d lo hi)
  show ?case
  proof (cases "lo < hi - 1")
    case False
    with "1.prems" have "hi = Suc lo" by simp
    with False "1.prems" show ?thesis
      by (simp add: bracketSearch.simps)
  next
    case True
    define mid where "mid = (lo + hi) div 2"
    have mid: "lo < mid" "mid < hi" using True by (simp_all add: mid_def)
    have el: "elemAt rps mid = Inr (rps ! mid)" using mid "1.prems" by simp
    show ?thesis
    proof (cases "distance (rps ! mid) \<le> d")
      case le: True
      from "1.IH"(1)[OF True mid_def el le] mid "1.prems" le
      obtain l where "bracketSearch rps d mid hi = Inr (l, Suc l)" "mid \<le> l" "Suc l \<le> hi"
        "distance (rps ! l) \<le> d" "d < distance (rps ! Suc l)" by auto
      with True le el mid show ?thesis
        by (subst bracketSearch.simps) (auto simp: mid_def Let_def)
    next
      case gt: False
      from "1.IH"(2)[OF True mid_def el gt] mid "1.prems" gt
      obtain l where "bracketSearch rps d lo mid = Inr (l, Suc l)" "lo \<le> l" "Suc l \<le> mid"
        "distance (rps ! l) \<le> d" "d < distance (rps ! Suc l)" by auto
      with True gt el mid show ?thesis
        by (subst bracketSearch.simps) (auto simp: mid_def Let_def)
    qed
  qed
qed

lemma interpolateElevation_empty [simp]: "interpolateElevation [] d = Inr 0"
  by (simp add: interpolateElevation_def)

lemma interpolateElevation_first:
  "rps \<noteq> [] \<Longrightarrow> d \<le> distance (hd rps) \<Longrightarrow> interpolateElevation rps d = Inr (elevation (hd rps))"
  by (simp add: interpolateElevation_def hd_conv_nth)

lemma interpolateElevation_last:
  "rps \<noteq> [] \<Longrightarrow> \<not> d \<le> distance (hd rps) \<Longrightarrow> d \<ge> distance (last rps)
     \<Longrightarrow> interpolateElevation rps d = Inr (elevation (last rps))"
  by (simp add: interpolateElevation_def hd_conv_nth last_conv_nth)

lemma interpolateElevation_inside:
  assumes "rps \<noteq> []" and "distance (hd rps) < d" and "d < distance (last rps)"
  shows "\<exists>l. Suc l < length rps \<and> distance (rps ! l) \<le> d \<and> d < distance (rps ! Suc l)
           \<and> bracketSearch rps d 0 (length rps - 1) = Inr (l, Suc l)
           \<and> interpolateElevation rps d =
               Inr (elevation (rps ! l)
                    + (d - distance (rps ! l)) / (distance (rps ! Suc l) - distance (rps ! l))
                      * (elevation (rps ! Suc l) - elevation (rps ! l)))"
proof -
  have h: "hd rps = rps ! 0" and l: "last rps = rps ! (length rps - 1)"
    using assms(1) by (simp_all add: hd_conv_nth last_conv_nth)
  have "length rps \<noteq> 1" using assms h l by auto
  with assms(1) have len: "0 < length rps - 1" "length rps - 1 < length rps"
    by (cases rps; simp)+
  from bracketSearch_bracket[OF len(1) len(2), of d] assms h l
  obtain k where k: "bracketSearch rps d 0 (length rps - 1) = Inr (k, Suc k)"
    "Suc k \<le> length rps - 1" "distance (rps ! k) \<le> d" "d < distance (rps ! Suc k)"
    by auto
  from k(2) len have "Suc k < length rps" "k < length rps" by simp_all
  with k assms h l show ?thesis
    by (intro exI[of _ k]) (simp add: interpolateElevation_def)
qed

lemma interpolateElevation_total: "\<exists>v. interpolateElevation rps d = Inr v"
proof (cases "rps = []")
  case True
  then show ?thesis by simp
next
  case False
  consider "d \<le> distance (hd rps)" | "\<not> d \<le> distance (hd rps)" "d \<ge> distance (last rps)"
    | "distance (hd rps) < d" "d < distance (last rps)" by linarith
  then show ?thesis
  proof cases
    case 1
    with False show ?thesis by (simp add: interpolateElevation_first)
  next
    case 2
    with False show ?thesis by (simp add: interpolateElevation_last)
  next
    case 3
    from interpolateElevation_inside[OF False 3] show ?thesis by blast
  qed
qed

lemma interpolateElevation_elevationAt:
  "interpolateElevation rps d = Inr (elevationAt rps d)"
  using interpolateElevation_total[of rps d] by (auto simp: elevationAt_def)

subsection \<open>Clamping and sample values\<close>

lemma strict_nth_less:
  assumes "sorted_wrt (\<lambda>p q. distance p < distance q) rps" "i < j" "j < length rps"
  shows "distance (rps ! i) < distance (rps ! j)"
  using assms by (simp add: sorted_wrt_iff_nth_less)

lemma strict_nth_le:
  assumes "sorted_wrt (\<lambda>p q. distance p < distance q) rps" "i < length rps" "j < length rps"
    "distance (rps ! i) \<le> distance (rps ! j)"
  shows "i \<le> j"
proof (rule ccontr)
  assume "\<not> i \<le> j"
  then have "j < i" by simp
  from strict_nth_less[OF assms(1) this assms(2)] assms(4) show False by simp
qed

lemma interpolateElevation_at_sample:
  assumes ne: "rps \<noteq> []" and st: "sorted_wrt (\<lambda>p q. distance p < distance q) rps"
    and i: "i < length rps"
  shows "interpolateElevation rps (distance (rps ! i)) = Inr (elevation (rps ! i))"
proof -
  let ?d = "distance (rps ! i)"
  have h: "hd rps = rps ! 0" and l: "last rps = rps ! (length rps - 1)"
    using ne by (simp_all add: hd_conv_nth last_conv_nth)
  have len: "0 < length rps" using ne by simp
  consider "?d \<le> distance (hd rps)" | "\<not> ?d \<le> distance (hd rps)" "?d \<ge> distance (last rps)"
    | "distance (hd rps) < ?d" "?d < distance (last rps)" by linarith
  then show ?thesis
  proof cases
    case 1
    then have "i \<le> 0" using strict_nth_le[OF st i len] h by simp
    with 1 ne h show ?thesis by (simp add: interpolateElevation_first)
  next
    case 2
    have "length rps - 1 \<le> i" using strict_nth_le[OF st _ i, of "length rps - 1"] 2 l len by simp
    with i have "i = length rps - 1" by simp
    with 2 ne l show ?thesis by (simp add: interpolateElevation_last)
  next
    case 3
    from interpolateElevation_inside[OF ne 3]
    obtain k where k: "Suc k < length rps" "distance (rps ! k) \<le> ?d" "?d < distance (rps ! Suc k)"
      "interpolateElevation rps ?d =
         Inr (elevation (rps ! k)
              + (?d - distance (rps ! k)) / (distance (rps ! Suc k) - distance (rps ! k))
                * (elevation (rps ! Suc k) - elevation (rps ! k)))" by blast
    have "k \<le> i" using strict_nth_le[OF st _ i k(2)] k(1) by simp
    moreover have "\<not> Suc k \<le> i"
    proof
      assume "Suc k \<le> i"
      then have "Suc k = i \<or> Suc k < i" by auto
      then have "distance (rps ! Suc k) \<le> ?d"
        using strict_nth_less[OF st _ i, of "Suc k"] by auto
      with k(3) show False by simp
    qed
    ultimately have "k = i" by simp
    with k(4) show ?thesis by simp
  qed
qed

text \<open>
  Claim C5. On a non-empty series whose distances strictly increase, \<open>interpolateElevation\<close>
  clamps: a query at or before the first sample's distance gives the first sample's
  elevation, a query at or after the last sample's distance gives the last sample's
  elevation; and a query at a sample's distance gives that sample's elevation.
\<close>

theorem interpolateElevation_clamp_law:
  assumes "rps \<noteq> []" and "sorted_wrt (\<lambda>p q. distance p < distance q) rps"
  shows "(d \<le> distance (hd rps) \<longrightarrow> interpolateElevation rps d = Inr (elevation (hd rps)))
       \<and> (d \<ge> distance (last rps) \<longrightarrow> interpolateElevation rps d = Inr (elevation (last rps)))
       \<and> (\<forall>p\<in>set rps. d = distance p \<longrightarrow> interpolateElevation rps d = Inr (elevation p))"
proof (intro conjI impI ballI)
  assume "d \<le> distance (hd rps)"
  with assms(1) show "interpolateElevation rps d = Inr (elevation (hd rps))"
    by (simp add: interpolateElevation_first)
next
  assume ge: "d \<ge> distance (last rps)"
  have h: "hd rps = rps ! 0" and l: "last rps = rps ! (length rps - 1)"
    using assms(1) by (simp_all add: hd_conv_nth last_conv_nth)
  show "interpolateElevation rps d = Inr (elevation (last rps))"
  proof (cases "d \<le> distance (hd rps)")
    case False
    with assms(1) ge show ?thesis by (simp add: interpolateElevation_last)
  next
    case True
    with ge have "distance (rps ! (length rps - 1)) \<le> distance (rps ! 0)" using h l by simp
    from strict_nth_le[OF assms(2) _ _ this] assms(1) have "length rps - 1 = 0" by simp
    with h l have "hd rps = last rps" by simp
    with True assms(1) show ?thesis by (simp add: interpolateElevation_first)
  qed
next
  fix p assume "p \<in> set rps" and d: "d = distance p"
  then obtain i where "i < length rps" "p = rps ! i" by (auto simp: in_set_conv_nth)
  with interpolateElevation_at_sample[OF assms this(1)] d
  show "interpolateElevation rps d = Inr (elevation p)" by simp
qed

theorem interpolateElevation_clamp_law_witness:
  "interpolateElevation upDown (- 3) = Inr 100
   \<and> interpolateElevation upDown 2000 = Inr 100
   \<and> interpolateElevation upDown 500 = Inr 150"
proof -
  have ne: "upDown \<noteq> []" and st: "sorted_wrt (\<lambda>p q. distance p < distance q) upDown"
    by (simp_all add: upDown_def)
  have "interpolateElevation upDown (- 3) = Inr 100"
    using interpolateElevation_clamp_law[OF ne st, of "- 3"] by (simp add: upDown_def)
  moreover have "interpolateElevation upDown 2000 = Inr 100"
    using interpolateElevation_clamp_law[OF ne st, of 2000] by (simp add: upDown_def)
  moreover have "interpolateElevation upDown 500 = Inr 150"
    using interpolateElevation_clamp_law[OF ne st, of 500] by (simp add: upDown_def)
  ultimately show ?thesis by simp
qed

subsection \<open>Degenerate brackets\<close>




subsection \<open>The windowed gradient\<close>

lemma computeGradientAtDistance_total: "\<exists>g. computeGradientAtDistance rps d tot w = Inr g"
  by (simp add: computeGradientAtDistance_def interpolateElevation_elevationAt Let_def)

lemma computeGradientAtDistance_value:
  "computeGradientAtDistance rps d tot w =
     Inr (if min tot (d + w) - max 0 (d - w) \<le> 0 then 0
          else (elevationAt rps (min tot (d + w)) - elevationAt rps (max 0 (d - w)))
               / (min tot (d + w) - max 0 (d - w)) * 100)"
  by (simp add: computeGradientAtDistance_def interpolateElevation_elevationAt Let_def)

text \<open>
  Claim C3, as stated, fails: on the climb of 10 m over 100 m, with total distance 100 and
  a window of 100, the gradient at distance 0 is 10, not 0.
\<close>

theorem computeGradientAtDistance_start_counterexample:
  "climb \<noteq> [] \<and> (0::real) < 100 \<and> computeGradientAtDistance climb 0 100 100 = Inr 10
   \<and> computeGradientAtDistance climb 0 100 100 \<noteq> Inr 0"
  by (simp add: computeGradientAtDistance_def interpolateElevation_def climb_def Let_def)

text \<open>
  Claim C3, amended. For every series and every positive total distance, the gradient at
  distance 0 with a window at least as wide as the total distance is computed without a
  fault (no division by zero, no exception): the window is the whole route, of positive
  length, and the result is the mean gradient of the route in percent.
\<close>

theorem computeGradientAtDistance_start_whole_route:
  assumes "0 < tot" and "tot \<le> w"
  shows "computeGradientAtDistance rps 0 tot w
           = Inr ((elevationAt rps tot - elevationAt rps 0) / tot * 100)"
  using assms by (simp add: computeGradientAtDistance_value)

theorem computeGradientAtDistance_start_whole_route_witness:
  "computeGradientAtDistance upDown 0 1000 1000 = Inr 0"
proof -
  have "elevationAt upDown 1000 = 100" "elevationAt upDown 0 = 100"
    by (simp_all add: elevationAt_def interpolateElevation_def upDown_def)
  then show ?thesis
    using computeGradientAtDistance_start_whole_route[of 1000 1000 upDown] by simp
qed

lemma interpolateElevation_linear:
  assumes ne: "rps \<noteq> []" and lin: "\<forall>p\<in>set rps. elevation p = c + s * distance p"
    and lo: "distance (hd rps) \<le> d" and hi: "d \<le> distance (last rps)"
  shows "interpolateElevation rps d = Inr (c + s * d)"
proof -
  have hdl: "hd rps \<in> set rps" "last rps \<in> set rps" using ne by simp_all
  consider "d \<le> distance (hd rps)" | "\<not> d \<le> distance (hd rps)" "d \<ge> distance (last rps)"
    | "distance (hd rps) < d" "d < distance (last rps)" by linarith
  then show ?thesis
  proof cases
    case 1
    with lo have "d = distance (hd rps)" by simp
    with 1 ne lin hdl show ?thesis by (simp add: interpolateElevation_first)
  next
    case 2
    with hi have "d = distance (last rps)" by simp
    with 2 ne lin hdl show ?thesis by (simp add: interpolateElevation_last)
  next
    case 3
    from interpolateElevation_inside[OF ne 3]
    obtain l where l: "Suc l < length rps" "distance (rps ! l) \<le> d" "d < distance (rps ! Suc l)"
      "interpolateElevation rps d =
         Inr (elevation (rps ! l)
              + (d - distance (rps ! l)) / (distance (rps ! Suc l) - distance (rps ! l))
                * (elevation (rps ! Suc l) - elevation (rps ! l)))" by blast
    have e1: "elevation (rps ! l) = c + s * distance (rps ! l)"
      and e2: "elevation (rps ! Suc l) = c + s * distance (rps ! Suc l)"
      using lin l(1) by simp_all
    have pos: "distance (rps ! Suc l) - distance (rps ! l) \<noteq> 0" using l(2,3) by simp
    have "(d - distance (rps ! l)) / (distance (rps ! Suc l) - distance (rps ! l))
            * (elevation (rps ! Suc l) - elevation (rps ! l)) = s * (d - distance (rps ! l))"
      using pos unfolding e1 e2 by (simp add: field_simps)
    with l(4) e1 show ?thesis by (simp add: algebra_simps)
  qed
qed

lemma computeGradientAtDistance_linear:
  assumes ne: "rps \<noteq> []" and lin: "\<forall>p\<in>set rps. elevation p = c + s * distance p"
    and "distance (hd rps) \<le> max 0 (d - w)" and "min tot (d + w) \<le> distance (last rps)"
    and lt: "max 0 (d - w) < min tot (d + w)"
  shows "computeGradientAtDistance rps d tot w = Inr (s * 100)"
proof -
  define d1 where "d1 = max 0 (d - w)"
  define d2 where "d2 = min tot (d + w)"
  have b: "distance (hd rps) \<le> d1" "d2 \<le> distance (last rps)" "d1 < d2"
    using assms(3,4) lt by (simp_all add: d1_def d2_def)
  then have b1: "d1 \<le> distance (last rps)" and b2: "distance (hd rps) \<le> d2" by linarith+
  have e1: "interpolateElevation rps d1 = Inr (c + s * d1)"
    by (rule interpolateElevation_linear[OF ne lin b(1) b1])
  have e2: "interpolateElevation rps d2 = Inr (c + s * d2)"
    by (rule interpolateElevation_linear[OF ne lin b2 b(2)])
  have nz: "d2 - d1 \<noteq> 0" and pos: "\<not> d2 - d1 \<le> 0" using b(3) by linarith+
  have "(c + s * d2 - (c + s * d1)) / (d2 - d1) = s * (d2 - d1) / (d2 - d1)"
    by (simp add: algebra_simps)
  also have "\<dots> = s" using nz by simp
  finally have q: "(c + s * d2 - (c + s * d1)) / (d2 - d1) = s" .
  have "computeGradientAtDistance rps d tot w =
          andThen (interpolateElevation rps d1) (\<lambda>e1.
          andThen (interpolateElevation rps d2) (\<lambda>e2.
            if d2 - d1 \<le> 0 then Inr 0
            else andThen (jsDiv (e2 - e1) (d2 - d1)) (\<lambda>q. Inr (q * 100))))"
    by (simp only: computeGradientAtDistance_def Let_def d1_def d2_def)
  also have "\<dots> = Inr (s * 100)"
    unfolding e1 e2 andThen_Inr by (simp only: pos if_False jsDiv_nonzero[OF nz] andThen_Inr q)
  finally show ?thesis .
qed

lemma mirrorSeries_hd_last:
  assumes "rps \<noteq> []"
  shows "mirrorSeries tot rps \<noteq> []"
    and "distance (hd (mirrorSeries tot rps)) = tot - distance (last rps)"
    and "distance (last (mirrorSeries tot rps)) = tot - distance (hd rps)"
  using assms by (simp_all add: mirrorSeries_def hd_rev last_rev last_map hd_map)

text \<open>
  Claim C6. On a route whose samples all lie on a line rising 10 m per 100 m, the gradient
  at the route's midpoint, with a window that lies inside the sampled range, is 10 percent;
  on the mirrored series the same query gives -10 percent.
\<close>

theorem gradient_sign_convention:
  assumes ne: "rps \<noteq> []"
    and lin: "\<forall>p\<in>set rps. elevation p = e0 + distance p / 10"
    and w: "0 < w"
    and inside: "0 \<le> distance (hd rps)" "distance (hd rps) \<le> tot / 2 - w"
      "tot / 2 + w \<le> distance (last rps)" "distance (last rps) \<le> tot"
  shows "computeGradientAtDistance rps (tot / 2) tot w = Inr 10
       \<and> computeGradientAtDistance (mirrorSeries tot rps) (tot / 2) tot w = Inr (- 10)"
proof
  have lin1: "\<forall>p\<in>set rps. elevation p = e0 + (1 / 10) * distance p" using lin by simp
  have "computeGradientAtDistance rps (tot / 2) tot w = Inr ((1 / 10) * 100)"
    using w inside by (intro computeGradientAtDistance_linear[OF ne lin1]) simp_all
  then show "computeGradientAtDistance rps (tot / 2) tot w = Inr 10" by simp
next
  have lin2: "\<forall>p\<in>set (mirrorSeries tot rps). elevation p = (e0 + tot / 10) + (- (1 / 10)) * distance p"
    using lin by (auto simp: mirrorSeries_def field_simps)
  note m = mirrorSeries_hd_last[OF ne, of tot]
  have "computeGradientAtDistance (mirrorSeries tot rps) (tot / 2) tot w = Inr ((- (1 / 10)) * 100)"
    using w inside by (intro computeGradientAtDistance_linear[OF m(1) lin2]) (simp_all add: m(2,3))
  then show "computeGradientAtDistance (mirrorSeries tot rps) (tot / 2) tot w = Inr (- 10)" by simp
qed

theorem gradient_sign_convention_witness:
  "computeGradientAtDistance climb 50 100 20 = Inr 10
   \<and> computeGradientAtDistance (mirrorSeries 100 climb) 50 100 20 = Inr (- 10)
   \<and> mirrorSeries 100 climb = [\<lparr>distance = 0, elevation = 10\<rparr>, \<lparr>distance = 100, elevation = 0\<rparr>]"
proof -
  have "climb \<noteq> []" "\<forall>p\<in>set climb. elevation p = 0 + distance p / 10" "(0::real) < 20"
    "0 \<le> distance (hd climb)" "distance (hd climb) \<le> 100 / 2 - 20"
    "100 / 2 + 20 \<le> distance (last climb)" "distance (last climb) \<le> 100"
    by (simp_all add: climb_def)
  from gradient_sign_convention[OF this] show ?thesis
    by (simp add: mirrorSeries_def climb_def)
qed

subsection \<open>Direction detection\<close>

lemma collect_Inr: "collect (map (\<lambda>x. Inr (f x)) xs) = Inr (map f xs)"
  by (induction xs) simp_all

lemma scanSvg_total:
  assumes "0 < i" and "i < length pts" and "px (pts ! (i - 1)) < tx"
    and "tx < px (pts ! (length pts - 1))"
  shows "\<exists>v. scanSvg pts tx i = Inr v"
  using assms
proof (induction pts tx i rule: scanSvg.induct)
  case (1 pts tx i)
  have el: "elemAt pts i = Inr (pts ! i)" "elemAt pts (i - 1) = Inr (pts ! (i - 1))"
    using "1.prems" by simp_all
  show ?case
  proof (cases "px (pts ! i) \<ge> tx")
    case True
    with "1.prems" have "px (pts ! i) - px (pts ! (i - 1)) \<noteq> 0" by simp
    with True el "1.prems" show ?thesis
      by (subst scanSvg.simps) simp
  next
    case False
    have "i \<noteq> length pts - 1" using False "1.prems"(4) by auto
    with "1.prems" have "i + 1 < length pts" by simp
    with "1.IH"[OF "1.prems"(2) el(1) False] False "1.prems"
    obtain v where "scanSvg pts tx (i + 1) = Inr v" by auto
    with False el "1.prems" show ?thesis
      by (subst scanSvg.simps) simp
  qed
qed

lemma getSvgYAtX_total: "\<exists>v. getSvgYAtX pts tx = Inr v"
proof (cases "pts = []")
  case True
  then show ?thesis by (simp add: getSvgYAtX_def)
next
  case False
  then have len: "0 < length pts" "length pts - 1 < length pts" by simp_all
  show ?thesis
  proof (cases "tx \<le> px (pts ! 0) \<or> tx \<ge> px (pts ! (length pts - 1))")
    case True
    with len show ?thesis by (auto simp: getSvgYAtX_def)
  next
    case out: False
    then have "length pts \<noteq> 1" by auto
    with len have "1 < length pts" by (cases pts) auto
    from scanSvg_total[OF _ this, of tx] out obtain v where "scanSvg pts tx 1 = Inr v" by auto
    with out len show ?thesis by (simp add: getSvgYAtX_def)
  qed
qed

lemma negate_getSvgYAtX:
  "andThen (getSvgYAtX pts tx) (\<lambda>v. Inr (negate v)) = Inr (- yAt pts tx)"
  using getSvgYAtX_total[of pts tx]
  by (auto simp: yAt_def negate_def split: option.splits)

lemma sseLoop_sum:
  assumes "length arr1 = length arr2" and "i \<le> length arr1"
  shows "sseLoop arr1 arr2 i s = Inr (s + (\<Sum>j = i..<length arr1. (arr1 ! j - arr2 ! j)\<^sup>2))"
  using assms
proof (induction arr1 arr2 i s rule: sseLoop.induct)
  case (1 arr1 arr2 i s)
  show ?case
  proof (cases "i < length arr1")
    case True
    with "1.prems" have i2: "i < length arr2" by simp
    have "sseLoop arr1 arr2 (i + 1) (s + (arr1 ! i - arr2 ! i) * (arr1 ! i - arr2 ! i))
            = Inr (s + (arr1 ! i - arr2 ! i) * (arr1 ! i - arr2 ! i)
                   + (\<Sum>j = i + 1..<length arr1. (arr1 ! j - arr2 ! j)\<^sup>2))"
      using "1.IH"[OF True i2 refl] "1.prems" True by simp
    moreover have "(\<Sum>j = i..<length arr1. (arr1 ! j - arr2 ! j)\<^sup>2)
            = (arr1 ! i - arr2 ! i)\<^sup>2 + (\<Sum>j = i + 1..<length arr1. (arr1 ! j - arr2 ! j)\<^sup>2)"
      using True by (simp add: sum.atLeast_Suc_lessThan)
    ultimately show ?thesis
      using True i2 by (subst sseLoop.simps) (simp add: Let_def power2_eq_square)
  next
    case False
    with "1.prems" show ?thesis by (subst sseLoop.simps) simp
  qed
qed

lemma sum_nth_zip:
  "length xs = length ys \<Longrightarrow>
     (\<Sum>j = 0..<length xs. (xs ! j - ys ! j)\<^sup>2) = (\<Sum>(a, b)\<leftarrow>zip xs ys. (a - b)\<^sup>2)"
  for xs ys :: "real list"
proof (induction xs ys rule: list_induct2)
  case Nil
  then show ?case by simp
next
  case (Cons x xs y ys)
  have "(\<Sum>j = 0..<Suc (length xs). ((x # xs) ! j - (y # ys) ! j)\<^sup>2)
          = (x - y)\<^sup>2 + (\<Sum>j = 0..<length xs. (xs ! j - ys ! j)\<^sup>2)"
    by (simp add: sum.atLeast0_lessThan_Suc_shift del: sum.op_ivl_Suc)
  with Cons show ?case by simp
qed

lemma sumSquaredError_sum:
  assumes "length arr1 = length arr2"
  shows "sumSquaredError arr1 arr2 = Inr (\<Sum>(a, b)\<leftarrow>zip arr1 arr2. (a - b)\<^sup>2)"
  using sseLoop_sum[OF assms, of 0 0] sum_nth_zip[OF assms] by (simp add: sumSquaredError_def)

lemma fold_min_Min: "fold min xs (a::real) = Min (set (a # xs))"
proof (induction xs arbitrary: a)
  case Nil
  then show ?case by simp
next
  case (Cons x xs)
  have "Min (insert a (insert x (set xs))) = Min (insert (min x a) (set xs))"
    by (cases "xs = []") (simp_all add: min.assoc min.commute min.left_commute)
  with Cons show ?case by simp
qed

lemma fold_max_Max: "fold max xs (a::real) = Max (set (a # xs))"
proof (induction xs arbitrary: a)
  case Nil
  then show ?case by simp
next
  case (Cons x xs)
  have "Max (insert a (insert x (set xs))) = Max (insert (max x a) (set xs))"
    by (cases "xs = []") (simp_all add: max.assoc max.commute max.left_commute)
  with Cons show ?case by simp
qed

lemma jsMin_Min: "arr \<noteq> [] \<Longrightarrow> jsMin arr = Min (set arr)"
  by (cases arr) (simp_all add: jsMin_def fold_min_Min)

lemma jsMax_Max: "arr \<noteq> [] \<Longrightarrow> jsMax arr = Max (set arr)"
  by (cases arr) (simp_all add: jsMax_def fold_max_Max)

lemma normalizeArray_minMax: "normalizeArray arr = minMaxNormalize arr"
proof (cases "arr = []")
  case True
  then show ?thesis by (simp add: normalizeArray_def minMaxNormalize_def)
next
  case False
  have "\<forall>v\<in>set arr. Max (set arr) = Min (set arr) \<longrightarrow> v = Min (set arr)"
  proof (intro ballI impI)
    fix v assume "v \<in> set arr" "Max (set arr) = Min (set arr)"
    then have "v \<le> Min (set arr)" "Min (set arr) \<le> v"
      using Max_ge[of "set arr" v] Min_le[of "set arr" v] by simp_all
    then show "v = Min (set arr)" by simp
  qed
  with False show ?thesis
    by (auto simp: normalizeArray_def minMaxNormalize_def jsMin_Min jsMax_Max orOne_def Let_def)
qed

lemma length_minMaxNormalize [simp]: "length (minMaxNormalize xs) = length xs"
  by (simp add: minMaxNormalize_def)

lemma candidateAt_value:
  "candidateAt rps tot 100 i =
     Inr \<lparr>cand_x = real i / 100, diff = asymmetry rps tot (real i / 100)\<rparr>"
  by (simp add: candidateAt_def interpolateElevation_elevationAt asymmetry_def)

lemma insort_key_map:
  "insort_key f (g a) (map g xs) = map g (insort_key (\<lambda>x. f (g x)) a xs)"
  by (induction xs) simp_all

lemma sort_key_map: "sort_key f (map g xs) = map g (sort_key (\<lambda>x. f (g x)) xs)"
  by (induction xs) (simp_all add: insort_key_map)

lemma findAsymmetricPositions_value:
  "findAsymmetricPositions rps tot 100 =
     Inr (map (\<lambda>x. \<lparr>cand_x = x, diff = asymmetry rps tot x\<rparr>)
            (sort_key (\<lambda>x. - asymmetry rps tot x) candidatePositions))"
proof -
  have "map (candidateAt rps tot 100) [1..<100]
          = map (\<lambda>x. Inr \<lparr>cand_x = x, diff = asymmetry rps tot x\<rparr>) candidatePositions"
    by (simp add: candidatePositions_def candidateAt_value comp_def)
  then have "collect (map (candidateAt rps tot 100) [1..<100])
          = Inr (map (\<lambda>x. \<lparr>cand_x = x, diff = asymmetry rps tot x\<rparr>) candidatePositions)"
    by (simp only: collect_Inr)
  then show ?thesis
    by (simp add: findAsymmetricPositions_def sort_key_map)
qed

lemma length_candidatePositions [simp]: "length candidatePositions = 99"
  by (simp add: candidatePositions_def)

lemma set_candidatePositions: "set candidatePositions = (\<lambda>i. real i / 100) ` {1..99}"
proof -
  have "{1..<100::nat} = {1..99}" by auto
  then show ?thesis by (simp add: candidatePositions_def)
qed

lemma hd_sort_key_Min:
  fixes f :: "'a \<Rightarrow> real"
  assumes "xs \<noteq> []"
  shows "f (hd (sort_key f xs)) = Min (f ` set xs)"
proof -
  let ?ys = "sort_key f xs"
  have ne: "?ys \<noteq> []" using assms by (metis length_sort length_0_conv)
  have s: "sorted (map f ?ys)" by (rule sorted_sort_key)
  have "hd ?ys \<in> set xs" using ne by (metis list.set_sel(1) set_sort)
  then have "Min (f ` set xs) \<le> f (hd ?ys)" by simp
  moreover have "f (hd ?ys) \<le> f y" if "y \<in> set xs" for y
  proof -
    from that have "y \<in> set ?ys" by simp
    then obtain i where i: "i < length ?ys" "?ys ! i = y" by (metis in_set_conv_nth)
    have "map f ?ys ! 0 \<le> map f ?ys ! i"
      using s i(1) by (intro sorted_nth_mono) simp_all
    moreover have "0 < length ?ys" using assms by simp
    ultimately have "f (?ys ! 0) \<le> f (?ys ! i)" using i(1) by (simp only: nth_map)
    with i ne show ?thesis by (simp add: hd_conv_nth)
  qed
  then have "f (hd ?ys) \<le> Min (f ` set xs)" using assms by simp
  ultimately show ?thesis by simp
qed

lemma top_asymmetry:
  "asymmetry rps tot (hd (sort_key (\<lambda>x. - asymmetry rps tot x) candidatePositions))
     = Max (asymmetry rps tot ` set candidatePositions)"
proof -
  have ne: "candidatePositions \<noteq> []" by (simp add: candidatePositions_def upt_rec)
  let ?A = "asymmetry rps tot ` set candidatePositions"
  have fin: "finite ?A" "?A \<noteq> {}" using ne by simp_all
  have "- asymmetry rps tot (hd (sort_key (\<lambda>x. - asymmetry rps tot x) candidatePositions))
          = Min ((\<lambda>x. - asymmetry rps tot x) ` set candidatePositions)"
    by (rule hd_sort_key_Min[OF ne])
  also have "(\<lambda>x. - asymmetry rps tot x) ` set candidatePositions = uminus ` ?A"
    by (simp add: image_image)
  also have "Min (uminus ` ?A) = - Max ?A"
    using fin by (simp add: minus_Max_eq_Min)
  finally show ?thesis by simp
qed

lemma elevationAt_shortRamp:
  "elevationAt shortRamp d = (if d \<le> 0 then 0 else if d \<ge> 2 then 10 else 5 * d)"
  by (simp add: elevationAt_def interpolateElevation_def shortRamp_def bracketSearch.simps)

lemma asymmetry_shortRamp:
  "asymmetry shortRamp 100 x = \<bar>(if x \<le> 0 then 0 else if x \<ge> 1 / 50 then 10 else 500 * x)
       - (if x \<ge> 1 then 0 else if x \<le> 49 / 50 then 10 else 500 * (1 - x))\<bar>"
  by (simp add: asymmetry_def elevationAt_shortRamp)

lemma t1: "topAsymmetric shortRamp 100 = [1/100, 99/100, 1/50, 3/100, 1/25]"
  by (simp add: topAsymmetric_def candidatePositions_def upt_rec asymmetry_shortRamp)

lemma collect_Inr_comp: "collect (map (Inr \<circ> f) xs) = Inr (map f xs)"
  using collect_Inr[of f xs] by (simp add: comp_def)

lemma length_sorted_candidates [simp]:
  "length (sort_key f candidatePositions) = 99"
  by simp

lemma length_topAsymmetric [simp]: "length (topAsymmetric rps tot) = 5"
  by (simp add: topAsymmetric_def)

lemma detectRouteDirection_value:
  "detectRouteDirection svg rps tot =
     Inr (if Max (asymmetry rps tot ` set candidatePositions) < 1 then Forward
          else if squaredDistance (minMaxNormalize (observedSeq svg rps tot))
                    (minMaxNormalize (forwardSeq rps tot))
                  \<le> squaredDistance (minMaxNormalize (observedSeq svg rps tot))
                       (minMaxNormalize (reverseSeq rps tot))
               then Forward else Reverse)"
proof -
  define sorted where "sorted = sort_key (\<lambda>x. - asymmetry rps tot x) candidatePositions"
  define mk where "mk = (\<lambda>x. \<lparr>cand_x = x, diff = asymmetry rps tot x\<rparr>)"
  have len: "length sorted = 99" by (simp add: sorted_def)
  have fa: "findAsymmetricPositions rps tot 100 = Inr (map mk sorted)"
    by (simp add: findAsymmetricPositions_value sorted_def mk_def)
  have top: "elemAt (map mk sorted) 0 = Inr (mk (hd sorted))"
    using len by (cases sorted) simp_all
  have dtop: "diff (mk (hd sorted)) = Max (asymmetry rps tot ` set candidatePositions)"
    using top_asymmetry[of rps tot] by (simp add: mk_def sorted_def)
  have xs: "map cand_x (take 5 (map mk sorted)) = topAsymmetric rps tot"
    by (simp add: take_map topAsymmetric_def sorted_def mk_def comp_def)
  have obs: "collect (map (\<lambda>x. andThen (getSvgYAtX svg x) (\<lambda>v. Inr (negate v))) (topAsymmetric rps tot))
               = Inr (observedSeq svg rps tot)"
    by (simp only: negate_getSvgYAtX collect_Inr observedSeq_def)
  have fwd: "collect (map (\<lambda>x. interpolateElevation rps (x * tot)) (topAsymmetric rps tot))
               = Inr (forwardSeq rps tot)"
    by (simp only: interpolateElevation_elevationAt collect_Inr forwardSeq_def)
  have rev: "collect (map (\<lambda>x. interpolateElevation rps ((1 - x) * tot)) (topAsymmetric rps tot))
               = Inr (reverseSeq rps tot)"
    by (simp only: interpolateElevation_elevationAt collect_Inr reverseSeq_def)
  have l5: "length (observedSeq svg rps tot) = 5" "length (forwardSeq rps tot) = 5"
    "length (reverseSeq rps tot) = 5"
    by (simp_all add: observedSeq_def forwardSeq_def reverseSeq_def)
  have e1: "sumSquaredError (minMaxNormalize (observedSeq svg rps tot)) (minMaxNormalize (forwardSeq rps tot))
              = Inr (squaredDistance (minMaxNormalize (observedSeq svg rps tot))
                       (minMaxNormalize (forwardSeq rps tot)))"
    by (simp add: sumSquaredError_sum squaredDistance_def l5)
  have e2: "sumSquaredError (minMaxNormalize (observedSeq svg rps tot)) (minMaxNormalize (reverseSeq rps tot))
              = Inr (squaredDistance (minMaxNormalize (observedSeq svg rps tot))
                       (minMaxNormalize (reverseSeq rps tot)))"
    by (simp add: sumSquaredError_sum squaredDistance_def l5)
  show ?thesis
    unfolding detectRouteDirection_def fa andThen_Inr top Let_def xs obs fwd rev
      normalizeArray_minMax e1 e2 dtop
    by simp
qed

lemma Max_candidates:
  "Max (asymmetry rps tot ` set candidatePositions)
     = Max ((\<lambda>i. \<bar>elevationAt rps (real i / 100 * tot) - elevationAt rps ((1 - real i / 100) * tot)\<bar>)
              ` {1..99::nat})"
  by (simp add: set_candidatePositions image_image asymmetry_def)

text \<open>
  Claim C1. If the largest forward/reverse asymmetry over the 99 candidate positions
  \<open>i / 100\<close>, \<open>i = 1, ..., 99\<close>, is below one metre, \<open>detectRouteDirection\<close> returns
  \<open>Forward\<close>, whatever the screen curve.
\<close>

theorem detectRouteDirection_symmetric:
  assumes "Max ((\<lambda>i. \<bar>elevationAt rps (real i / 100 * tot) - elevationAt rps ((1 - real i / 100) * tot)\<bar>)
                 ` {1..99::nat}) < 1"
  shows "detectRouteDirection svg rps tot = Inr Forward"
proof -
  have "Max (asymmetry rps tot ` set candidatePositions) < 1"
    using assms unfolding Max_candidates .
  then show ?thesis by (simp add: detectRouteDirection_value)
qed

lemma topAsymmetric_most:
  assumes "x \<in> set (topAsymmetric rps tot)"
    and "x' \<in> set candidatePositions - set (topAsymmetric rps tot)"
  shows "asymmetry rps tot x' \<le> asymmetry rps tot x"
proof -
  define f where "f = (\<lambda>x. - asymmetry rps tot x)"
  define ys where "ys = sort_key f candidatePositions"
  have "sorted (map f ys)" unfolding ys_def by (rule sorted_sort_key)
  moreover have "map f ys = map f (take 5 ys) @ map f (drop 5 ys)"
    by (metis append_take_drop_id map_append)
  ultimately have s: "sorted (map f (take 5 ys) @ map f (drop 5 ys))" by simp
  have "set (take 5 ys) \<union> set (drop 5 ys) = set candidatePositions"
    by (metis append_take_drop_id set_append set_sort ys_def)
  with assms have a: "x \<in> set (take 5 ys)" and b: "x' \<in> set (drop 5 ys)"
    by (auto simp: topAsymmetric_def ys_def f_def)
  from s a b have "f x \<le> f x'"
    by (simp only: sorted_append) auto
  then show ?thesis by (simp add: f_def)
qed

text \<open>
  Claim C2. If the largest asymmetry over the 99 candidates is at least one metre,
  \<open>detectRouteDirection\<close> returns \<open>Forward\<close> exactly when the squared distance between the
  normalized observed sequence and the normalized forward sequence is at most the one for
  the reverse sequence (a tie gives \<open>Forward\<close>), and \<open>Reverse\<close> otherwise. The sequences
  are read at five candidate positions none of which is less asymmetric than a candidate
  left out.
\<close>

theorem detectRouteDirection_asymmetric:
  assumes "1 \<le> Max ((\<lambda>i. \<bar>elevationAt rps (real i / 100 * tot) - elevationAt rps ((1 - real i / 100) * tot)\<bar>)
                      ` {1..99::nat})"
  shows "(detectRouteDirection svg rps tot = Inr Forward \<longleftrightarrow>
            squaredDistance (minMaxNormalize (observedSeq svg rps tot)) (minMaxNormalize (forwardSeq rps tot))
              \<le> squaredDistance (minMaxNormalize (observedSeq svg rps tot)) (minMaxNormalize (reverseSeq rps tot)))
       \<and> (detectRouteDirection svg rps tot = Inr Reverse \<longleftrightarrow>
            squaredDistance (minMaxNormalize (observedSeq svg rps tot)) (minMaxNormalize (reverseSeq rps tot))
              < squaredDistance (minMaxNormalize (observedSeq svg rps tot)) (minMaxNormalize (forwardSeq rps tot)))
       \<and> length (topAsymmetric rps tot) = 5
       \<and> set (topAsymmetric rps tot) \<subseteq> set candidatePositions
       \<and> (\<forall>x\<in>set (topAsymmetric rps tot). \<forall>x'\<in>set candidatePositions - set (topAsymmetric rps tot).
             asymmetry rps tot x' \<le> asymmetry rps tot x)"
proof -
  have "\<not> Max (asymmetry rps tot ` set candidatePositions) < 1"
    using assms unfolding Max_candidates not_less .
  then have "detectRouteDirection svg rps tot =
     Inr (if squaredDistance (minMaxNormalize (observedSeq svg rps tot))
                    (minMaxNormalize (forwardSeq rps tot))
                  \<le> squaredDistance (minMaxNormalize (observedSeq svg rps tot))
                       (minMaxNormalize (reverseSeq rps tot))
               then Forward else Reverse)"
    by (simp add: detectRouteDirection_value)
  moreover have "set (topAsymmetric rps tot) \<subseteq> set candidatePositions"
    unfolding topAsymmetric_def by (metis set_take_subset set_sort)
  ultimately show ?thesis
    using topAsymmetric_most[of _ rps tot] by auto
qed

lemma elevationAt_upDown:
  "elevationAt upDown d =
     (if d \<le> 0 then 100 else if d \<ge> 1000 then 100
      else if 500 \<le> d then 150 - (d - 500) / 10 else 100 + d / 10)"
  by (simp add: elevationAt_def interpolateElevation_def upDown_def bracketSearch.simps)

lemma elevationAt_upDown_mirror: "elevationAt upDown (1000 - d) = elevationAt upDown d"
  by (auto simp: elevationAt_upDown field_simps)

lemma upDown_symmetric:
  "Max ((\<lambda>i. \<bar>elevationAt upDown (real i / 100 * 1000)
                - elevationAt upDown ((1 - real i / 100) * 1000)\<bar>) ` {1..99::nat}) < 1"
proof -
  have "elevationAt upDown ((1 - real i / 100) * 1000) = elevationAt upDown (real i / 100 * 1000)" for i
    using elevationAt_upDown_mirror[of "real i / 100 * 1000"] by (simp add: algebra_simps)
  then show ?thesis
    by (subst Max_less_iff) auto
qed

lemma detectRouteDirection_upDown: "detectRouteDirection svg upDown 1000 = Inr Forward"
proof -
  have "Max (asymmetry upDown 1000 ` set candidatePositions) < 1"
    using upDown_symmetric unfolding Max_candidates .
  then show ?thesis by (simp add: detectRouteDirection_value)
qed

theorem detectRouteDirection_symmetric_witness:
  "detectRouteDirection descendingCurve upDown 1000 = Inr Forward"
  by (rule detectRouteDirection_symmetric[OF upDown_symmetric])

lemma topAsymmetric_shortRamp:
  "topAsymmetric shortRamp 100 = [1/100, 99/100, 1/50, 3/100, 1/25]"
  by (simp add: topAsymmetric_def candidatePositions_def upt_rec asymmetry_shortRamp)

lemma yAt_descendingCurve:
  "0 < t \<Longrightarrow> t < 1 \<Longrightarrow> yAt descendingCurve t = 1 / 5 + t * (3 / 5)"
  by (simp add: yAt_def getSvgYAtX_def descendingCurve_def scanSvg.simps)

lemma shortRamp_asymmetric:
  "1 \<le> Max ((\<lambda>i. \<bar>elevationAt shortRamp (real i / 100 * 100)
                     - elevationAt shortRamp ((1 - real i / 100) * 100)\<bar>) ` {1..99::nat})"
proof -
  let ?A = "(\<lambda>i. \<bar>elevationAt shortRamp (real i / 100 * 100)
                   - elevationAt shortRamp ((1 - real i / 100) * 100)\<bar>) ` {1..99::nat}"
  have "\<bar>elevationAt shortRamp (real (1::nat) / 100 * 100)
          - elevationAt shortRamp ((1 - real (1::nat) / 100) * 100)\<bar> \<in> ?A"
    by (rule imageI) simp
  then have "\<bar>elevationAt shortRamp (real (1::nat) / 100 * 100)
          - elevationAt shortRamp ((1 - real (1::nat) / 100) * 100)\<bar> \<le> Max ?A"
    by (intro Max_ge) simp_all
  moreover have "\<bar>elevationAt shortRamp (real (1::nat) / 100 * 100)
          - elevationAt shortRamp ((1 - real (1::nat) / 100) * 100)\<bar> = 5"
    by (simp add: elevationAt_shortRamp)
  ultimately show ?thesis by linarith
qed

lemma shortRamp_errors:
  "squaredDistance (minMaxNormalize (observedSeq descendingCurve shortRamp 100))
      (minMaxNormalize (reverseSeq shortRamp 100))
   < squaredDistance (minMaxNormalize (observedSeq descendingCurve shortRamp 100))
      (minMaxNormalize (forwardSeq shortRamp 100))"
proof -
  have obs: "minMaxNormalize (observedSeq descendingCurve shortRamp 100) = [1, 0, 97 / 98, 48 / 49, 95 / 98]"
    by (simp add: observedSeq_def topAsymmetric_shortRamp yAt_descendingCurve minMaxNormalize_def)
  have fwd: "minMaxNormalize (forwardSeq shortRamp 100) = [0, 1, 1, 1, 1]"
    by (simp add: forwardSeq_def topAsymmetric_shortRamp elevationAt_shortRamp minMaxNormalize_def)
  have rev: "minMaxNormalize (reverseSeq shortRamp 100) = [1, 0, 1, 1, 1]"
    by (simp add: reverseSeq_def topAsymmetric_shortRamp elevationAt_shortRamp minMaxNormalize_def)
  show ?thesis
    unfolding obs fwd rev by (simp add: squaredDistance_def power2_eq_square)
qed

lemma detectRouteDirection_shortRamp:
  "detectRouteDirection descendingCurve shortRamp 100 = Inr Reverse"
proof -
  have "\<not> Max (asymmetry shortRamp 100 ` set candidatePositions) < 1"
    using shortRamp_asymmetric unfolding Max_candidates not_less .
  with shortRamp_errors show ?thesis by (simp add: detectRouteDirection_value)
qed

theorem detectRouteDirection_asymmetric_witness:
  "detectRouteDirection descendingCurve shortRamp 100 = Inr Reverse"
  using detectRouteDirection_asymmetric[OF shortRamp_asymmetric, of descendingCurve] shortRamp_errors
  by simp

subsection \<open>Arithmetic on numbers that may be infinite or NaN\<close>

text \<open>On finite numbers with a nonzero divisor the operations are those of the reals.\<close>

lemma finiteValue_exact [simp]: "finiteValue (exact r neg) = Some r"
  by (simp add: exact_def signedZero_def)

lemma exact_not_NaN [simp]: "exact r neg \<noteq> NaN"
  by (simp add: exact_def signedZero_def)

lemma finiteValue_not_NaN: "finiteValue x = Some a \<Longrightarrow> x \<noteq> NaN"
  by (cases x) simp_all

lemma jsMul_finite:
  "finiteValue x = Some a \<Longrightarrow> finiteValue y = Some b \<Longrightarrow> finiteValue (jsMul x y) = Some (a * b)"
  by (simp add: jsMul_def finiteValue_not_NaN)

lemma jsDivide_finite:
  "finiteValue x = Some a \<Longrightarrow> finiteValue y = Some b \<Longrightarrow> b \<noteq> 0
     \<Longrightarrow> finiteValue (jsDivide x y) = Some (a / b)"
  by (simp add: jsDivide_def finiteValue_not_NaN)

lemma jsAdd_finite:
  "finiteValue x = Some a \<Longrightarrow> finiteValue y = Some b \<Longrightarrow> finiteValue (jsAdd x y) = Some (a + b)"
  by (simp add: jsAdd_def finiteValue_not_NaN)

lemma jsNeg_finite: "finiteValue x = Some a \<Longrightarrow> finiteValue (jsNeg x) = Some (- a)"
  by (cases x) simp_all

lemma jsSub_finite:
  "finiteValue x = Some a \<Longrightarrow> finiteValue y = Some b \<Longrightarrow> finiteValue (jsSub x y) = Some (a - b)"
  unfolding jsSub_def using jsAdd_finite[OF _ jsNeg_finite, of x a y b] by simp

lemma jsLess_finite:
  "finiteValue x = Some a \<Longrightarrow> finiteValue y = Some b \<Longrightarrow> jsLess x y = (a < b)"
  by (simp add: jsLess_def finiteValue_not_NaN)

lemma jsLessEq_finite:
  "finiteValue x = Some a \<Longrightarrow> finiteValue y = Some b \<Longrightarrow> jsLessEq x y = (a \<le> b)"
  by (auto simp: jsLessEq_def jsLess_finite finiteValue_not_NaN)

lemma clampNum_finite: "finiteValue q = Some r \<Longrightarrow> clampNum q = Some (clampNormalized r)"
  by (cases q) (simp_all add: clampNum_def)

lemma clampNum_None: "clampNum q = None \<longleftrightarrow> q = NaN"
  by (cases q) (simp_all add: clampNum_def)

text \<open>A number divided by a finite nonzero one is \<open>NaN\<close> only when it is \<open>NaN\<close> itself.\<close>

lemma jsDivide_NaN_iff: "d \<noteq> 0 \<Longrightarrow> jsDivide x (Fin d) = NaN \<longleftrightarrow> x = NaN"
  by (cases x) (simp_all add: jsDivide_def signedInf_def)

subsection \<open>The colour scale\<close>

lemma hexDigitValue_less: "hexDigitValue c = Some n \<Longrightarrow> n < 16"
  by (auto simp: hexDigitValue_def Let_def split: if_splits)

lemma hexDigitValue_not_special:
  assumes "hexDigitValue c = Some n"
  shows "\<not> isWhiteSpace c" "c \<noteq> CHR ''+''" "c \<noteq> CHR ''-''" "c \<noteq> CHR ''x''" "c \<noteq> CHR ''X''"
    "c \<noteq> CHR ''#''"
proof -
  have k: "(48 \<le> (of_char c :: nat) \<and> (of_char c :: nat) \<le> 57)
         \<or> (97 \<le> (of_char c :: nat) \<and> (of_char c :: nat) \<le> 102)
         \<or> (65 \<le> (of_char c :: nat) \<and> (of_char c :: nat) \<le> 70)"
    using assms by (auto simp: hexDigitValue_def Let_def split: if_splits)
  then show "\<not> isWhiteSpace c" by (auto simp: isWhiteSpace_def Let_def)
  have "(of_char c :: nat) \<noteq> of_char (CHR ''+'')" "(of_char c :: nat) \<noteq> of_char (CHR ''-'')"
    "(of_char c :: nat) \<noteq> of_char (CHR ''x'')" "(of_char c :: nat) \<noteq> of_char (CHR ''X'')"
    "(of_char c :: nat) \<noteq> of_char (CHR ''#'')"
    using k by auto
  then show "c \<noteq> CHR ''+''" "c \<noteq> CHR ''-''" "c \<noteq> CHR ''x''" "c \<noteq> CHR ''X''" "c \<noteq> CHR ''#''"
    by blast+
qed

lemma digitChar_value: "n < 16 \<Longrightarrow> hexDigitValue (digitChar n) = Some n"
  by (simp add: digitChar_def hexDigitValue_def Let_def)

lemma parseInt16_two:
  assumes "hexDigitValue a = Some m" and "hexDigitValue b = Some n"
  shows "parseInt16 [a, b] = Some (int (16 * m + n))"
proof -
  note ha = hexDigitValue_not_special[OF assms(1)] and hb = hexDigitValue_not_special[OF assms(2)]
  show ?thesis using ha hb assms
    by (simp add: parseInt16_def Let_def)
qed

lemma char_zero: "CHR ''0'' = char_of (48::nat)"
proof -
  have "(of_char (CHR ''0'') :: nat) = of_char (char_of (48::nat))" by simp
  then show ?thesis by (simp only: of_char_eq_iff)
qed

lemma hexString_small: "n < 16 \<Longrightarrow> hexString n = [digitChar n]"
  by (simp add: hexString.simps)

lemma hexString_byte:
  assumes "n < 256"
  shows "padStart2 (hexString n) = [digitChar (n div 16), digitChar (n mod 16)]"
proof (cases "n < 16")
  case True
  then show ?thesis by (simp add: hexString_small padStart2_def digitChar_def char_zero)
next
  case False
  with assms have "n div 16 < 16" by simp
  with False show ?thesis
    by (subst hexString.simps) (simp add: hexString_small padStart2_def)
qed

lemma toString16_nat:
  assumes "k < 256"
  shows "padStart2 (toString16 (Some (int k))) = [digitChar (k div 16), digitChar (k mod 16)]"
  using assms by (simp add: toString16_def hexString_byte)

lemma toString16_byte:
  assumes "0 \<le> v" and "v \<le> 255"
  shows "padStart2 (toString16 (Some v)) = [digitChar (nat v div 16), digitChar (nat v mod 16)]"
  using assms toString16_nat[of "nat v"] by simp

lemma toString16_digits:
  assumes "m < 16" and "n < 16"
  shows "padStart2 (toString16 (Some (int (16 * m + n)))) = [digitChar m, digitChar n]"
proof -
  have "16 * m + n < 256" using assms by simp
  from toString16_nat[OF this] assms show ?thesis by simp
qed

lemma jsRound_int [simp]: "jsRound (real_of_int k) = k"
  by (simp add: jsRound_def)

lemma jsRound_between:
  assumes "0 \<le> a" "a \<le> 255" "0 \<le> b" "b \<le> 255" "0 \<le> t" "t \<le> 1"
  shows "0 \<le> jsRound (real_of_int a + (real_of_int b - real_of_int a) * t)
       \<and> jsRound (real_of_int a + (real_of_int b - real_of_int a) * t) \<le> 255"
proof -
  let ?v = "real_of_int a + (real_of_int b - real_of_int a) * t"
  have t1: "0 \<le> 1 - t" using assms by simp
  have "?v = (1 - t) * real_of_int a + t * real_of_int b" by (simp add: algebra_simps)
  moreover have "0 \<le> (1 - t) * real_of_int a" "0 \<le> t * real_of_int b"
    using assms by simp_all
  moreover have "(1 - t) * real_of_int a \<le> (1 - t) * 255" "t * real_of_int b \<le> t * 255"
    using assms t1 by (intro mult_left_mono; simp)+
  ultimately have "0 \<le> ?v" "?v \<le> 255" by (simp_all add: algebra_simps)
  then show ?thesis by (simp add: jsRound_def)
qed

lemma list7: "length xs = 7 \<Longrightarrow> \<exists>a b c d e f g. xs = [a, b, c, d, e, f, g]"
  by (auto simp: eval_nat_numeral length_Suc_conv)

lemma isHexColor_form:
  assumes "isHexColor str"
  obtains h1 h2 h3 h4 h5 h6 v1 v2 v3 v4 v5 v6 where
    "str = [CHR ''#'', h1, h2, h3, h4, h5, h6]"
    "hexDigitValue h1 = Some v1" "hexDigitValue h2 = Some v2" "hexDigitValue h3 = Some v3"
    "hexDigitValue h4 = Some v4" "hexDigitValue h5 = Some v5" "hexDigitValue h6 = Some v6"
proof -
  from assms have "length str = 7" by (simp add: isHexColor_def)
  from list7[OF this] obtain a b c d e f g where s: "str = [a, b, c, d, e, f, g]" by blast
  with assms have "a = CHR ''#''" "hexDigitValue b \<noteq> None" "hexDigitValue c \<noteq> None"
    "hexDigitValue d \<noteq> None" "hexDigitValue e \<noteq> None" "hexDigitValue f \<noteq> None"
    "hexDigitValue g \<noteq> None"
    by (simp_all add: isHexColor_def)
  with s that show thesis by blast
qed

lemma toLowerHex_digit: "hexDigitValue c = Some n \<Longrightarrow> toLowerHex c = digitChar n"
  by (simp add: toLowerHex_def)

lemma toLowerHex_hash: "toLowerHex (CHR ''#'') = CHR ''#''"
  by (simp add: toLowerHex_def hexDigitValue_def Let_def)

lemma channel_string:
  assumes "hexDigitValue a1 = Some m1" "hexDigitValue b1 = Some n1"
    and "hexDigitValue a2 = Some m2" "hexDigitValue b2 = Some n2"
    and "0 \<le> t" "t \<le> 1"
  shows "\<exists>p q. p < 16 \<and> q < 16 \<and>
           padStart2 (toString16 (case (parseInt16 [a1, b1], parseInt16 [a2, b2]) of
              (Some c1, Some c2) \<Rightarrow> Some (jsRound (real_of_int c1 + (real_of_int c2 - real_of_int c1) * t))
            | _ \<Rightarrow> None)) = [digitChar p, digitChar q]"
proof -
  let ?c1 = "int (16 * m1 + n1)" and ?c2 = "int (16 * m2 + n2)"
  have b: "m1 < 16" "n1 < 16" "m2 < 16" "n2 < 16"
    using assms(1-4) by (simp_all add: hexDigitValue_less)
  then have r: "0 \<le> ?c1" "?c1 \<le> 255" "0 \<le> ?c2" "?c2 \<le> 255" by simp_all
  let ?v = "jsRound (real_of_int ?c1 + (real_of_int ?c2 - real_of_int ?c1) * t)"
  from jsRound_between[OF r assms(5,6)] have v: "0 \<le> ?v" "?v \<le> 255" by simp_all
  have ts: "padStart2 (toString16 (Some ?v)) = [digitChar (nat ?v div 16), digitChar (nat ?v mod 16)]"
    by (rule toString16_byte[OF v])
  have dv: "nat ?v div 16 < 16" and md: "nat ?v mod 16 < 16" using v by simp_all
  have eq: "(case (parseInt16 [a1, b1], parseInt16 [a2, b2]) of
              (Some c1, Some c2) \<Rightarrow> Some (jsRound (real_of_int c1 + (real_of_int c2 - real_of_int c1) * t))
            | _ \<Rightarrow> None) = Some ?v"
    unfolding parseInt16_two[OF assms(1,2)] parseInt16_two[OF assms(3,4)]
    by (simp only: prod.case option.case)
  show ?thesis
    unfolding eq by (intro exI[of _ "nat ?v div 16"] exI[of _ "nat ?v mod 16"] conjI dv md ts)
qed

lemma lerpChannel_explicit:
  "lerpChannel [a0, a1, a2, a3, a4, a5, a6] [b0, b1, b2, b3, b4, b5, b6] t 1 3 =
     (case (parseInt16 [a1, a2], parseInt16 [b1, b2]) of
        (Some c1, Some c2) \<Rightarrow> Some (jsRound (real_of_int c1 + (real_of_int c2 - real_of_int c1) * t))
      | _ \<Rightarrow> None)"
  "lerpChannel [a0, a1, a2, a3, a4, a5, a6] [b0, b1, b2, b3, b4, b5, b6] t 3 5 =
     (case (parseInt16 [a3, a4], parseInt16 [b3, b4]) of
        (Some c1, Some c2) \<Rightarrow> Some (jsRound (real_of_int c1 + (real_of_int c2 - real_of_int c1) * t))
      | _ \<Rightarrow> None)"
  "lerpChannel [a0, a1, a2, a3, a4, a5, a6] [b0, b1, b2, b3, b4, b5, b6] t 5 7 =
     (case (parseInt16 [a5, a6], parseInt16 [b5, b6]) of
        (Some c1, Some c2) \<Rightarrow> Some (jsRound (real_of_int c1 + (real_of_int c2 - real_of_int c1) * t))
      | _ \<Rightarrow> None)"
  by (simp_all add: lerpChannel_def slice_def)



lemma isHexColor_digits:
  assumes "p1 < 16" "q1 < 16" "p2 < 16" "q2 < 16" "p3 < 16" "q3 < 16"
  shows "isHexColor (CHR ''#'' # [digitChar p1, digitChar q1] @ [digitChar p2, digitChar q2]
           @ [digitChar p3, digitChar q3])"
  using assms by (simp add: isHexColor_def digitChar_value)

lemma lerpColor_unfold:
  "lerpColor color1 color2 t =
     CHR ''#'' # padStart2 (toString16 (lerpChannel color1 color2 t 1 3))
       @ padStart2 (toString16 (lerpChannel color1 color2 t 3 5))
       @ padStart2 (toString16 (lerpChannel color1 color2 t 5 7))"
  by (simp add: lerpColor_def)

lemma lerpColor_wellformed:
  assumes "isHexColor color1" and "isHexColor color2" and "0 \<le> t" and "t \<le> 1"
  shows "isHexColor (lerpColor color1 color2 t)"
proof -
  from assms(1) obtain h1 h2 h3 h4 h5 h6 v1 v2 v3 v4 v5 v6 where
    c1: "color1 = [CHR ''#'', h1, h2, h3, h4, h5, h6]"
    and h: "hexDigitValue h1 = Some v1" "hexDigitValue h2 = Some v2" "hexDigitValue h3 = Some v3"
    "hexDigitValue h4 = Some v4" "hexDigitValue h5 = Some v5" "hexDigitValue h6 = Some v6"
    by (rule isHexColor_form)
  from assms(2) obtain k1 k2 k3 k4 k5 k6 w1 w2 w3 w4 w5 w6 where
    c2: "color2 = [CHR ''#'', k1, k2, k3, k4, k5, k6]"
    and k: "hexDigitValue k1 = Some w1" "hexDigitValue k2 = Some w2" "hexDigitValue k3 = Some w3"
    "hexDigitValue k4 = Some w4" "hexDigitValue k5 = Some w5" "hexDigitValue k6 = Some w6"
    by (rule isHexColor_form)
  from channel_string[OF h(1,2) k(1,2) assms(3,4)] obtain p1 q1 where
    r: "p1 < 16" "q1 < 16" "padStart2 (toString16 (lerpChannel color1 color2 t 1 3)) = [digitChar p1, digitChar q1]"
    unfolding c1 c2 lerpChannel_explicit by blast
  from channel_string[OF h(3,4) k(3,4) assms(3,4)] obtain p2 q2 where
    g: "p2 < 16" "q2 < 16" "padStart2 (toString16 (lerpChannel color1 color2 t 3 5)) = [digitChar p2, digitChar q2]"
    unfolding c1 c2 lerpChannel_explicit by blast
  from channel_string[OF h(5,6) k(5,6) assms(3,4)] obtain p3 q3 where
    b: "p3 < 16" "q3 < 16" "padStart2 (toString16 (lerpChannel color1 color2 t 5 7)) = [digitChar p3, digitChar q3]"
    unfolding c1 c2 lerpChannel_explicit by blast
  have "lerpColor color1 color2 t = CHR ''#'' # [digitChar p1, digitChar q1] @ [digitChar p2, digitChar q2]
           @ [digitChar p3, digitChar q3]"
    unfolding lerpColor_unfold r(3) g(3) b(3) by simp
  with isHexColor_digits[OF r(1,2) g(1,2) b(1,2)] show ?thesis by simp
qed

lemma lerpColor_ends:
  assumes "isHexColor color1" and "isHexColor color2"
  shows "lerpColor color1 color2 0 = map toLowerHex color1"
    and "lerpColor color1 color2 1 = map toLowerHex color2"
proof -
  from assms(1) obtain h1 h2 h3 h4 h5 h6 v1 v2 v3 v4 v5 v6 where
    c1: "color1 = [CHR ''#'', h1, h2, h3, h4, h5, h6]"
    and h: "hexDigitValue h1 = Some v1" "hexDigitValue h2 = Some v2" "hexDigitValue h3 = Some v3"
    "hexDigitValue h4 = Some v4" "hexDigitValue h5 = Some v5" "hexDigitValue h6 = Some v6"
    by (rule isHexColor_form)
  from assms(2) obtain k1 k2 k3 k4 k5 k6 w1 w2 w3 w4 w5 w6 where
    c2: "color2 = [CHR ''#'', k1, k2, k3, k4, k5, k6]"
    and k: "hexDigitValue k1 = Some w1" "hexDigitValue k2 = Some w2" "hexDigitValue k3 = Some w3"
    "hexDigitValue k4 = Some w4" "hexDigitValue k5 = Some w5" "hexDigitValue k6 = Some w6"
    by (rule isHexColor_form)
  note lh = h[THEN hexDigitValue_less] and lk = k[THEN hexDigitValue_less]
  note p = parseInt16_two[OF h(1,2)] parseInt16_two[OF h(3,4)] parseInt16_two[OF h(5,6)]
    parseInt16_two[OF k(1,2)] parseInt16_two[OF k(3,4)] parseInt16_two[OF k(5,6)]
  note d = toString16_digits[OF lh(1,2)] toString16_digits[OF lh(3,4)] toString16_digits[OF lh(5,6)]
    toString16_digits[OF lk(1,2)] toString16_digits[OF lk(3,4)] toString16_digits[OF lk(5,6)]
  have ch0: "lerpChannel color1 color2 0 1 3 = Some (int (16 * v1 + v2))"
    "lerpChannel color1 color2 0 3 5 = Some (int (16 * v3 + v4))"
    "lerpChannel color1 color2 0 5 7 = Some (int (16 * v5 + v6))"
    unfolding c1 c2 lerpChannel_explicit p by (simp_all only: prod.case option.case mult_zero_right add_0_right mult_1_right add_diff_cancel_left' diff_add_cancel add.commute[of _ "real_of_int _ - real_of_int _"] jsRound_int)
  have ch1: "lerpChannel color1 color2 1 1 3 = Some (int (16 * w1 + w2))"
    "lerpChannel color1 color2 1 3 5 = Some (int (16 * w3 + w4))"
    "lerpChannel color1 color2 1 5 7 = Some (int (16 * w5 + w6))"
    unfolding c1 c2 lerpChannel_explicit p by (simp_all only: prod.case option.case mult_zero_right add_0_right mult_1_right add_diff_cancel_left' diff_add_cancel add.commute[of _ "real_of_int _ - real_of_int _"] jsRound_int)
  show "lerpColor color1 color2 0 = map toLowerHex color1"
    unfolding lerpColor_def Let_def ch0
    by (simp add: d c1 toLowerHex_hash toLowerHex_digit h del: of_nat_add of_nat_mult)
  show "lerpColor color1 color2 1 = map toLowerHex color2"
    unfolding lerpColor_def Let_def ch1
    by (simp add: d c2 toLowerHex_hash toLowerHex_digit k del: of_nat_add of_nat_mult)
qed

lemma bandOf_range: "- 3 \<le> bandOf n \<and> bandOf n \<le> 2"
  by (simp add: bandOf_def)

lemma clampNormalized_range: "- 3 \<le> clampNormalized q \<and> clampNormalized q \<le> 3"
  by (simp add: clampNormalized_def)

lemma bandOf_fraction:
  assumes "- 3 \<le> n" and "n \<le> 3"
  shows "0 \<le> n - real_of_int (bandOf n) \<and> n - real_of_int (bandOf n) \<le> 1"
proof -
  have f: "real_of_int \<lfloor>n\<rfloor> \<le> n" "n < real_of_int \<lfloor>n\<rfloor> + 1" by linarith+
  have lo: "- 3 \<le> \<lfloor>n\<rfloor>" using assms(1) by (simp add: le_floor_iff)
  have hi: "\<lfloor>n\<rfloor> \<le> 3" using assms(2) f(1) by linarith
  show ?thesis
  proof (cases "\<lfloor>n\<rfloor> \<le> 2")
    case True
    with lo have "bandOf n = \<lfloor>n\<rfloor>" by (simp add: bandOf_def)
    then show ?thesis using f by simp linarith
  next
    case False
    with hi have "\<lfloor>n\<rfloor> = 3" by linarith
    with f assms have "n = 3" by simp
    then show ?thesis by (simp add: bandOf_def)
  qed
qed

lemma stopAt_in_range:
  "0 \<le> k \<Longrightarrow> nat k < length stops \<Longrightarrow> stopAt stops k = Inr (stops ! nat k)"
  by (simp add: stopAt_def)

lemma clampNum_range: "clampNum q = Some n \<Longrightarrow> - 3 \<le> n \<and> n \<le> 3"
  using clampNormalized_range by (cases q) (auto simp: clampNum_def)

lemma gradientToColorNum_value:
  assumes "length (colorStops st) = 7" and "clampNum (jsDivide x (Fin (settings_distance st))) = Some n"
  shows "gradientToColorNum st x =
           Inr (lerpColor (colorStops st ! nat (bandOf n + 3)) (colorStops st ! nat (bandOf n + 4))
                  (n - real_of_int (bandOf n)))"
proof -
  have b: "- 3 \<le> bandOf n" "bandOf n \<le> 2" using bandOf_range by simp_all
  have s1: "stopAt (colorStops st) (bandOf n + 3) = Inr (colorStops st ! nat (bandOf n + 3))"
    using b assms(1) by (intro stopAt_in_range) simp_all
  have s2: "stopAt (colorStops st) (bandOf n + 4) = Inr (colorStops st ! nat (bandOf n + 4))"
    using b assms(1) by (intro stopAt_in_range) simp_all
  show ?thesis
    unfolding gradientToColorNum_def assms(2) option.case Let_def s1 s2 andThen_Inr ..
qed

lemma gradientToColorNum_NaN: "gradientToColorNum st NaN = Inl TypeError"
  by (simp add: gradientToColorNum_def jsDivide_def clampNum_def)

text \<open>With seven colour stops and a nonzero band width, \<open>gradientToColor\<close> throws exactly on
  \<open>NaN\<close>.\<close>

lemma gradientToColorNum_total:
  assumes "settings_distance st \<noteq> 0" and "length (colorStops st) = 7" and "x \<noteq> NaN"
  shows "\<exists>c. gradientToColorNum st x = Inr c"
proof -
  have "clampNum (jsDivide x (Fin (settings_distance st))) \<noteq> None"
    using assms(1,3) by (simp add: clampNum_None jsDivide_NaN_iff)
  then obtain n where "clampNum (jsDivide x (Fin (settings_distance st))) = Some n" by auto
  from gradientToColorNum_value[OF assms(2) this] show ?thesis by blast
qed

lemma gradientToColor_value:
  assumes "settings_distance st \<noteq> 0" and "length (colorStops st) = 7"
  shows "gradientToColor st g =
           Inr (lerpColor (colorStops st ! nat (bandOf (clampNormalized (g / settings_distance st)) + 3))
                  (colorStops st ! nat (bandOf (clampNormalized (g / settings_distance st)) + 4))
                  (clampNormalized (g / settings_distance st)
                     - real_of_int (bandOf (clampNormalized (g / settings_distance st)))))"
proof -
  have "finiteValue (jsDivide (Fin g) (Fin (settings_distance st))) = Some (g / settings_distance st)"
    using assms(1) by (intro jsDivide_finite) simp_all
  from gradientToColorNum_value[OF assms(2) clampNum_finite[OF this]]
  show ?thesis by (simp add: gradientToColor_def)
qed

text \<open>
  Claim C10. For a positive band width and seven well-formed colour stops, the band index of
  every gradient lies between -3 and 2, both colour-stop reads are inside the list, and
  the result is a well-formed \<open>#rrggbb\<close> string. A gradient of at least three band widths
  gives the last colour stop and a gradient of at most minus three band widths the first
  one, each spelled with lower-case digits.
\<close>

theorem gradientToColor_in_scale:
  assumes bw: "0 < settings_distance st"
    and n7: "length (colorStops st) = 7"
    and wf: "\<forall>c\<in>set (colorStops st). isHexColor c"
  shows "- 3 \<le> bandOf (clampNormalized (g / settings_distance st))
       \<and> bandOf (clampNormalized (g / settings_distance st)) \<le> 2
       \<and> stopAt (colorStops st) (bandOf (clampNormalized (g / settings_distance st)) + 3)
           = Inr (colorStops st ! nat (bandOf (clampNormalized (g / settings_distance st)) + 3))
       \<and> stopAt (colorStops st) (bandOf (clampNormalized (g / settings_distance st)) + 4)
           = Inr (colorStops st ! nat (bandOf (clampNormalized (g / settings_distance st)) + 4))
       \<and> (\<exists>c. gradientToColor st g = Inr c \<and> isHexColor c)
       \<and> (3 * settings_distance st \<le> g \<longrightarrow>
             gradientToColor st g = Inr (map toLowerHex (colorStops st ! 6)))
       \<and> (g \<le> - 3 * settings_distance st \<longrightarrow>
             gradientToColor st g = Inr (map toLowerHex (colorStops st ! 0)))"
proof -
  let ?n = "clampNormalized (g / settings_distance st)"
  let ?b = "bandOf ?n"
  have nz: "settings_distance st \<noteq> 0" using bw by simp
  have b: "- 3 \<le> ?b" "?b \<le> 2" using bandOf_range by simp_all
  have s1: "stopAt (colorStops st) (?b + 3) = Inr (colorStops st ! nat (?b + 3))"
    using b n7 by (intro stopAt_in_range) simp_all
  have s2: "stopAt (colorStops st) (?b + 4) = Inr (colorStops st ! nat (?b + 4))"
    using b n7 by (intro stopAt_in_range) simp_all
  have hex: "isHexColor (colorStops st ! k)" if "k < 7" for k
    using wf n7 that by (simp add: all_set_conv_all_nth)
  have c1: "isHexColor (colorStops st ! nat (?b + 3))" and c2: "isHexColor (colorStops st ! nat (?b + 4))"
    using b by (intro hex; simp)+
  have t: "0 \<le> ?n - real_of_int ?b" "?n - real_of_int ?b \<le> 1"
    using bandOf_fraction[of ?n] clampNormalized_range[of "g / settings_distance st"] by simp_all
  note v = gradientToColor_value[OF nz n7, of g]
  have wfc: "\<exists>c. gradientToColor st g = Inr c \<and> isHexColor c"
    unfolding v using lerpColor_wellformed[OF c1 c2 t] by simp
  have top: "gradientToColor st g = Inr (map toLowerHex (colorStops st ! 6))"
    if "3 * settings_distance st \<le> g"
  proof -
    from that bw have "3 \<le> g / settings_distance st" by (simp add: pos_le_divide_eq)
    then have n: "?n = 3" by (simp add: clampNormalized_def)
    have bb: "bandOf 3 = 2" by (simp add: bandOf_def)
    show ?thesis unfolding v n bb using lerpColor_ends(2)[OF hex[of 5] hex[of 6]] by simp
  qed
  have bot: "gradientToColor st g = Inr (map toLowerHex (colorStops st ! 0))"
    if "g \<le> - 3 * settings_distance st"
  proof -
    from that bw have "g / settings_distance st \<le> - 3" by (simp add: pos_divide_le_eq)
    then have n: "?n = - 3" by (simp add: clampNormalized_def)
    have bb: "bandOf (- 3) = - 3" by (simp add: bandOf_def)
    show ?thesis unfolding v n bb using lerpColor_ends(1)[OF hex[of 0] hex[of 1]] by simp
  qed
  from b s1 s2 wfc top bot show ?thesis by blast
qed

theorem gradientToColor_in_scale_witness:
  "gradientToColor defaultSettings 25 = Inr ''#430102''
   \<and> gradientToColor defaultSettings (- 30) = Inr ''#713071''
   \<and> (\<exists>c. gradientToColor defaultSettings (7 / 2) = Inr c \<and> isHexColor c)"
proof -
  have bw: "0 < settings_distance defaultSettings" and n7: "length (colorStops defaultSettings) = 7"
    by (simp_all add: defaultSettings_def)
  have wf: "\<forall>c\<in>set (colorStops defaultSettings). isHexColor c"
    by (simp add: defaultSettings_def isHexColor_def hexDigitValue_def Let_def)
  have l6: "map toLowerHex (colorStops defaultSettings ! 6) = ''#430102''"
    by code_simp
  have l0: "map toLowerHex (colorStops defaultSettings ! 0) = ''#713071''"
    by code_simp
  from gradientToColor_in_scale[OF bw n7 wf, of 25] gradientToColor_in_scale[OF bw n7 wf, of "- 30"]
    gradientToColor_in_scale[OF bw n7 wf, of "7 / 2"] l6 l0
  show ?thesis by (simp add: defaultSettings_def)
qed

subsection \<open>The segment loop\<close>

lemma segmentLoop_done:
  "\<not> i < length eps - 1 \<Longrightarrow> segmentLoop st c ur rv er ys tot eps i acc = (acc, None)"
  by (subst segmentLoop.simps) simp

lemma segmentLoop_fault:
  "i < length eps - 1 \<Longrightarrow> segmentStep st ur rv er ys tot eps i = Inl e
     \<Longrightarrow> segmentLoop st c ur rv er ys tot eps i acc = (acc, Some e)"
  by (subst segmentLoop.simps) simp

lemma segmentLoop_skip:
  "i < length eps - 1 \<Longrightarrow> segmentStep st ur rv er ys tot eps i = Inr None
     \<Longrightarrow> segmentLoop st c ur rv er ys tot eps i acc = segmentLoop st c ur rv er ys tot eps (i + 1) acc"
  by (subst segmentLoop.simps) simp

lemma segmentLoop_emit:
  "i < length eps - 1 \<Longrightarrow> segmentStep st ur rv er ys tot eps i = Inr (Some pg)
     \<Longrightarrow> segmentLoop st True ur rv er ys tot eps i acc
           = segmentLoop st True ur rv er ys tot eps (i + 1) (acc @ [pg])"
  by (subst segmentLoop.simps) (simp add: insertBefore_def)

lemma segmentLoop_blocked:
  "i < length eps - 1 \<Longrightarrow> segmentStep st ur rv er ys tot eps i = Inr (Some pg)
     \<Longrightarrow> segmentLoop st False ur rv er ys tot eps i acc = (acc, Some NotFoundError)"
  by (subst segmentLoop.simps) (simp add: insertBefore_def)

text \<open>When the active polyline is not a child of the chart, no polygon is ever inserted.\<close>

lemma segmentLoop_detached: "fst (segmentLoop st False ur rv er ys tot eps i acc) = acc"
proof (induction "length eps - i" arbitrary: i)
  case 0
  then have "\<not> i < length eps - 1" by simp
  then show ?case by (simp add: segmentLoop_done)
next
  case (Suc n)
  show ?case
  proof (cases "i < length eps - 1")
    case False
    then show ?thesis by (simp add: segmentLoop_done)
  next
    case True
    have n: "n = length eps - (i + 1)" using Suc(2) by simp
    show ?thesis
    proof (cases "segmentStep st ur rv er ys tot eps i")
      case (Inl e)
      then show ?thesis by (simp add: segmentLoop_fault[OF True])
    next
      case (Inr res)
      show ?thesis
      proof (cases res)
        case None
        with Inr have "segmentStep st ur rv er ys tot eps i = Inr None" by simp
        from segmentLoop_skip[OF True this] Suc(1)[OF n] show ?thesis by simp
      next
        case (Some pg)
        with Inr have "segmentStep st ur rv er ys tot eps i = Inr (Some pg)" by simp
        from segmentLoop_blocked[OF True this] show ?thesis by simp
      qed
    qed
  qed
qed

lemma upt_first: "i < m \<Longrightarrow> [i..<m] = i # [i + 1..<m]"
  by (simp add: upt_rec)

lemma segmentLoop_prefix:
  assumes "i \<le> length eps - 1"
  shows "\<exists>m. i \<le> m \<and> m \<le> length eps - 1
           \<and> fst (segmentLoop st True ur rv er ys tot eps i acc)
               = acc @ List.map_filter (stepPolygon st ur rv er ys tot eps) [i..<m]
           \<and> (\<forall>j. i \<le> j \<and> j < m \<longrightarrow> (\<exists>r. segmentStep st ur rv er ys tot eps j = Inr r))
           \<and> (snd (segmentLoop st True ur rv er ys tot eps i acc) = None \<longrightarrow> m = length eps - 1)
           \<and> (\<forall>e. snd (segmentLoop st True ur rv er ys tot eps i acc) = Some e \<longrightarrow>
                  m < length eps - 1 \<and> segmentStep st ur rv er ys tot eps m = Inl e)"
  using assms
proof (induction "length eps - i" arbitrary: i acc)
  case 0
  then have nl: "\<not> i < length eps - 1" and i: "i = length eps - 1" by simp_all
  let ?step = "segmentStep st ur rv er ys tot eps"
  let ?sp = "stepPolygon st ur rv er ys tot eps"
  show ?case
    unfolding segmentLoop_done[OF nl]
  proof (intro exI[of _ i] conjI)
    show "i \<le> i" by simp
    show "i \<le> length eps - 1" using i by simp
    show "fst (acc, None) = acc @ List.map_filter ?sp [i..<i]" by (simp add: List.map_filter_simps)
    show "\<forall>j. i \<le> j \<and> j < i \<longrightarrow> (\<exists>r. ?step j = Inr r)" by auto
    show "snd (acc, None :: fault option) = None \<longrightarrow> i = length eps - 1" using i by simp
    show "\<forall>e. snd (acc, None) = Some e \<longrightarrow> i < length eps - 1 \<and> ?step i = Inl e" by simp
  qed
next
  case (Suc n)
  let ?step = "segmentStep st ur rv er ys tot eps"
  let ?sp = "stepPolygon st ur rv er ys tot eps"
  show ?case
  proof (cases "i < length eps - 1")
    case False
    with Suc.prems have i: "i = length eps - 1" by simp
    show ?thesis
      unfolding segmentLoop_done[OF False]
    proof (intro exI[of _ i] conjI)
      show "i \<le> i" by simp
      show "i \<le> length eps - 1" by (rule Suc.prems)
      show "fst (acc, None) = acc @ List.map_filter ?sp [i..<i]" by (simp add: List.map_filter_simps)
      show "\<forall>j. i \<le> j \<and> j < i \<longrightarrow> (\<exists>r. ?step j = Inr r)" by auto
      show "snd (acc, None :: fault option) = None \<longrightarrow> i = length eps - 1" using i by simp
      show "\<forall>e. snd (acc, None) = Some e \<longrightarrow> i < length eps - 1 \<and> ?step i = Inl e" by simp
    qed
  next
    case True
    have n: "n = length eps - (i + 1)" using Suc(2) by simp
    show ?thesis
    proof (cases "?step i")
      case (Inl e)
      show ?thesis
        unfolding segmentLoop_fault[OF True Inl]
      proof (intro exI[of _ i] conjI)
        show "i \<le> i" by simp
        show "i \<le> length eps - 1" by (rule Suc.prems)
        show "fst (acc, Some e) = acc @ List.map_filter ?sp [i..<i]" by (simp add: List.map_filter_simps)
        show "\<forall>j. i \<le> j \<and> j < i \<longrightarrow> (\<exists>r. ?step j = Inr r)" by auto
        show "snd (acc, Some e) = None \<longrightarrow> i = length eps - 1" by simp
        show "\<forall>e'. snd (acc, Some e) = Some e' \<longrightarrow> i < length eps - 1 \<and> ?step i = Inl e'"
          using True Inl by simp
      qed
    next
      case (Inr res)
      have le: "i + 1 \<le> length eps - 1" using True by simp
      have ext: "\<forall>j. i \<le> j \<and> j < m \<longrightarrow> (\<exists>r. ?step j = Inr r)"
        if "\<forall>j. i + 1 \<le> j \<and> j < m \<longrightarrow> (\<exists>r. ?step j = Inr r)" for m
      proof (intro allI impI)
        fix j assume "i \<le> j \<and> j < m"
        then consider "j = i" | "i + 1 \<le> j \<and> j < m" by linarith
        then show "\<exists>r. ?step j = Inr r" using Inr that by cases auto
      qed
      show ?thesis
      proof (cases res)
        case None
        have st: "?step i = Inr None" using Inr None by simp
        have sp: "?sp i = None" using st by (simp add: stepPolygon_def)
        from Suc(1)[OF n le, of acc] obtain m where m: "i + 1 \<le> m" "m \<le> length eps - 1"
          "fst (segmentLoop st True ur rv er ys tot eps (i + 1) acc) = acc @ List.map_filter ?sp [i + 1..<m]"
          "\<forall>j. i + 1 \<le> j \<and> j < m \<longrightarrow> (\<exists>r. ?step j = Inr r)"
          "snd (segmentLoop st True ur rv er ys tot eps (i + 1) acc) = None \<longrightarrow> m = length eps - 1"
          "\<forall>e. snd (segmentLoop st True ur rv er ys tot eps (i + 1) acc) = Some e \<longrightarrow>
                  m < length eps - 1 \<and> ?step m = Inl e"
          by (elim exE conjE) (rule that)
        have im: "i < m" using m(1) by simp
        have mf: "List.map_filter ?sp [i..<m] = List.map_filter ?sp [i + 1..<m]"
          unfolding upt_first[OF im] by (simp add: List.map_filter_simps sp)
        show ?thesis
          unfolding segmentLoop_skip[OF True st]
          using im m(2) m(3) ext[OF m(4)] m(5) m(6)
          by (intro exI[of _ m]) (simp only: mf less_imp_le_nat simp_thms)
      next
        case (Some pg)
        have st: "?step i = Inr (Some pg)" using Inr Some by simp
        have sp: "?sp i = Some pg" using st by (simp add: stepPolygon_def)
        from Suc(1)[OF n le, of "acc @ [pg]"] obtain m where m: "i + 1 \<le> m" "m \<le> length eps - 1"
          "fst (segmentLoop st True ur rv er ys tot eps (i + 1) (acc @ [pg]))
             = (acc @ [pg]) @ List.map_filter ?sp [i + 1..<m]"
          "\<forall>j. i + 1 \<le> j \<and> j < m \<longrightarrow> (\<exists>r. ?step j = Inr r)"
          "snd (segmentLoop st True ur rv er ys tot eps (i + 1) (acc @ [pg])) = None \<longrightarrow> m = length eps - 1"
          "\<forall>e. snd (segmentLoop st True ur rv er ys tot eps (i + 1) (acc @ [pg])) = Some e \<longrightarrow>
                  m < length eps - 1 \<and> ?step m = Inl e"
          by (elim exE conjE) (rule that)
        have im: "i < m" using m(1) by simp
        have mf: "acc @ List.map_filter ?sp [i..<m] = (acc @ [pg]) @ List.map_filter ?sp [i + 1..<m]"
          unfolding upt_first[OF im] by (simp add: List.map_filter_simps sp)
        show ?thesis
          unfolding segmentLoop_emit[OF True st]
          using im m(2) m(3) ext[OF m(4)] m(5) m(6)
          by (intro exI[of _ m]) (simp only: mf less_imp_le_nat simp_thms)
      qed
    qed
  qed
qed

text \<open>The gradient of a segment when the route data is used.\<close>

lemma segmentGradient_route:
  assumes "i < length eps - 1"
  shows "\<exists>g. computeGradientAtDistance rps
               (if rv then (1 - (px (eps ! i) + px (eps ! Suc i)) / 2) * tot
                else (px (eps ! i) + px (eps ! Suc i)) / 2 * tot) tot 50 = Inr g
           \<and> segmentGradient (Some rps) rv er ys tot eps i
               = Inr (Some (eps ! i, eps ! Suc i, if rv then jsNeg (Fin g) else Fin g))"
proof -
  have si: "i < length eps" "Suc i < length eps" using assms(1) by linarith+
  have el: "elemAt eps i = Inr (eps ! i)" "elemAt eps (Suc i) = Inr (eps ! Suc i)"
    using si by simp_all
  let ?d = "if rv then (1 - (px (eps ! i) + px (eps ! Suc i)) / 2) * tot
            else (px (eps ! i) + px (eps ! Suc i)) / 2 * tot"
  obtain g where g: "computeGradientAtDistance rps ?d tot 50 = Inr g"
    using computeGradientAtDistance_total by blast
  then have "segmentGradient (Some rps) rv er ys tot eps i
               = Inr (Some (eps ! i, eps ! Suc i, if rv then jsNeg (Fin g) else Fin g))"
    by (simp add: segmentGradient_def el routeGradient_def Let_def)
  with g show ?thesis by blast
qed

lemma walkStart_range: "i < length eps \<Longrightarrow> \<exists>s. walkStart eps t i = Inr s \<and> s \<le> i"
  by (induction i) auto

lemma walkEnd_range:
  assumes "e < length eps"
  shows "\<exists>r. walkEnd eps t e = Inr r \<and> e \<le> r \<and> r < length eps"
  using assms
proof (induction eps t e rule: walkEnd.induct)
  case (1 eps t e)
  show ?case
  proof (cases "e < length eps - 1 \<and> jsLess (Fin (px (eps ! e))) t")
    case True
    then have "e + 1 < length eps" by linarith
    from "1.IH"[OF _ _ _ this] True "1.prems"
    obtain r where "walkEnd eps t (e + 1) = Inr r" "e + 1 \<le> r" "r < length eps" by auto
    with True "1.prems" show ?thesis by (subst walkEnd.simps) simp
  next
    case False
    with "1.prems" show ?thesis by (subst walkEnd.simps) auto
  qed
qed

text \<open>The fallback branch: the widened span \<open>s\<close> to \<open>e\<close> contains the pair; a span that is
  not positive is skipped, a positive one gives the gradient.\<close>

lemma fallbackGradient_span:
  assumes "Suc i < length eps"
  shows "\<exists>s e. s \<le> i \<and> i + 1 \<le> e \<and> e < length eps
           \<and> fallbackGradient er ys tot eps i p1 p2 =
               (if px (eps ! e) - px (eps ! s) \<le> 0 then Inr None
                else Inr (Some (jsMul (jsDivide (jsMul (jsSub (Fin (py (eps ! s))) (Fin (py (eps ! e)))) (Fin er))
                                         (jsMul (jsMul (Fin ys) (jsSub (Fin (px (eps ! e))) (Fin (px (eps ! s)))))
                                            (Fin tot)))
                                  (Fin 100))))"
proof -
  define minDX where "minDX = jsDivide (jsMul (jsMul (Fin 0.001) (Fin er)) (Fin 100))
                    (jsMul (jsMul (Fin ys) (Fin 1)) (Fin tot))"
  define cx where "cx = jsDivide (jsAdd (Fin (px p1)) (Fin (px p2))) (Fin 2)"
  define ts where "ts = jsSub cx (jsDivide minDX (Fin 2))"
  define te where "te = jsAdd cx (jsDivide minDX (Fin 2))"
  from walkStart_range[of i eps ts] assms obtain s where s: "walkStart eps ts i = Inr s" "s \<le> i"
    by auto
  from walkEnd_range[of "i + 1" eps te] assms obtain e where
    e: "walkEnd eps te (i + 1) = Inr e" "i + 1 \<le> e" "e < length eps" by auto
  have el: "elemAt eps s = Inr (eps ! s)" "elemAt eps e = Inr (eps ! e)"
    using s(2) e(3) assms by simp_all
  have dx: "jsLessEq (jsSub (Fin (px (eps ! e))) (Fin (px (eps ! s)))) (Fin 0)
              = (px (eps ! e) - px (eps ! s) \<le> 0)"
    by (intro jsLessEq_finite jsSub_finite) simp_all
  have "fallbackGradient er ys tot eps i p1 p2 =
               (if px (eps ! e) - px (eps ! s) \<le> 0 then Inr None
                else Inr (Some (jsMul (jsDivide (jsMul (jsSub (Fin (py (eps ! s))) (Fin (py (eps ! e)))) (Fin er))
                                         (jsMul (jsMul (Fin ys) (jsSub (Fin (px (eps ! e))) (Fin (px (eps ! s)))))
                                            (Fin tot)))
                                  (Fin 100))))"
    unfolding fallbackGradient_def Let_def minDX_def[symmetric] cx_def[symmetric]
      ts_def[symmetric] te_def[symmetric] s(1) e(1) el andThen_Inr dx ..
  with s(2) e(2,3) show ?thesis by blast
qed

lemma fallbackGradient_total:
  assumes "Suc i < length eps"
  shows "\<exists>r. fallbackGradient er ys tot eps i p1 p2 = Inr r"
  using fallbackGradient_span[OF assms, of er ys tot p1 p2] by (elim exE conjE) simp

text \<open>With a nonzero total distance the gradient of the fallback branch is finite: it is
  the screen-space slope over the widened span, scaled.\<close>

lemma fallbackGradient_skip:
  assumes "tot \<noteq> 0" and "ys \<noteq> 0" and "Suc i < length eps"
  shows "\<exists>s e. s \<le> i \<and> i + 1 \<le> e \<and> e < length eps
           \<and> (px (eps ! e) - px (eps ! s) \<le> 0 \<longrightarrow> fallbackGradient er ys tot eps i p1 p2 = Inr None)
           \<and> (0 < px (eps ! e) - px (eps ! s) \<longrightarrow>
                 (\<exists>g. fallbackGradient er ys tot eps i p1 p2 = Inr (Some g)
                    \<and> finiteValue g = Some ((py (eps ! s) - py (eps ! e)) * er
                                / (ys * (px (eps ! e) - px (eps ! s)) * tot) * 100)))"
proof -
  from fallbackGradient_span[OF assms(3), of er ys tot p1 p2]
  obtain s e where se: "s \<le> i" "i + 1 \<le> e" "e < length eps"
    and fb: "fallbackGradient er ys tot eps i p1 p2 =
               (if px (eps ! e) - px (eps ! s) \<le> 0 then Inr None
                else Inr (Some (jsMul (jsDivide (jsMul (jsSub (Fin (py (eps ! s))) (Fin (py (eps ! e)))) (Fin er))
                                         (jsMul (jsMul (Fin ys) (jsSub (Fin (px (eps ! e))) (Fin (px (eps ! s)))))
                                            (Fin tot)))
                                  (Fin 100))))"
    by (elim exE conjE) (rule that)
  let ?g = "jsMul (jsDivide (jsMul (jsSub (Fin (py (eps ! s))) (Fin (py (eps ! e)))) (Fin er))
                                         (jsMul (jsMul (Fin ys) (jsSub (Fin (px (eps ! e))) (Fin (px (eps ! s)))))
                                            (Fin tot)))
                                  (Fin 100)"
  have fin: "finiteValue ?g = Some ((py (eps ! s) - py (eps ! e)) * er
                                / (ys * (px (eps ! e) - px (eps ! s)) * tot) * 100)"
    if pos: "0 < px (eps ! e) - px (eps ! s)"
  proof -
    have nz: "ys * (px (eps ! e) - px (eps ! s)) * tot \<noteq> 0" using pos assms(1,2) by simp
    have num: "finiteValue (jsMul (jsSub (Fin (py (eps ! s))) (Fin (py (eps ! e)))) (Fin er))
                 = Some ((py (eps ! s) - py (eps ! e)) * er)"
      by (intro jsMul_finite jsSub_finite) simp_all
    have den: "finiteValue (jsMul (jsMul (Fin ys) (jsSub (Fin (px (eps ! e))) (Fin (px (eps ! s))))) (Fin tot))
                 = Some (ys * (px (eps ! e) - px (eps ! s)) * tot)"
      by (intro jsMul_finite jsSub_finite) simp_all
    show ?thesis
      by (intro jsMul_finite jsDivide_finite[OF num den nz]) simp
  qed
  have skip: "px (eps ! e) - px (eps ! s) \<le> 0 \<longrightarrow> fallbackGradient er ys tot eps i p1 p2 = Inr None"
    unfolding fb by simp
  have emit: "0 < px (eps ! e) - px (eps ! s) \<longrightarrow>
                 (\<exists>g. fallbackGradient er ys tot eps i p1 p2 = Inr (Some g)
                    \<and> finiteValue g = Some ((py (eps ! s) - py (eps ! e)) * er
                                / (ys * (px (eps ! e) - px (eps ! s)) * tot) * 100))"
  proof
    assume pos: "0 < px (eps ! e) - px (eps ! s)"
    then have "fallbackGradient er ys tot eps i p1 p2 = Inr (Some ?g)" unfolding fb by simp
    with fin[OF pos] show "\<exists>g. fallbackGradient er ys tot eps i p1 p2 = Inr (Some g)
                    \<and> finiteValue g = Some ((py (eps ! s) - py (eps ! e)) * er
                                / (ys * (px (eps ! e) - px (eps ! s)) * tot) * 100)" by blast
  qed
  from se skip emit show ?thesis by (intro exI[of _ s] exI[of _ e] conjI)
qed

lemma segmentGradient_total:
  assumes "i < length eps - 1"
  shows "\<exists>r. segmentGradient ur rv er ys tot eps i = Inr r"
proof (cases ur)
  case None
  have si: "i < length eps" "Suc i < length eps" using assms by linarith+
  have el: "elemAt eps i = Inr (eps ! i)" "elemAt eps (Suc i) = Inr (eps ! Suc i)"
    using si by simp_all
  from fallbackGradient_total[OF si(2), of er ys tot "eps ! i" "eps ! Suc i"]
  obtain r where "fallbackGradient er ys tot eps i (eps ! i) (eps ! Suc i) = Inr r" ..
  with None show ?thesis by (simp add: segmentGradient_def el)
next
  case (Some rps)
  from segmentGradient_route[OF assms, of rps rv tot er ys] Some show ?thesis by blast
qed

lemma segmentGradient_ends:
  assumes "i < length eps - 1"
    and "segmentGradient ur rv er ys tot eps i = Inr (Some (p1, p2, g))"
  shows "p1 = eps ! i \<and> p2 = eps ! Suc i"
proof -
  have si: "i < length eps" "Suc i < length eps" using assms(1) by linarith+
  have el: "elemAt eps i = Inr (eps ! i)" "elemAt eps (Suc i) = Inr (eps ! Suc i)"
    using si by simp_all
  from assms(2) show ?thesis
    by (auto simp: segmentGradient_def el andThen_def split: sum.splits option.splits)
qed

text \<open>With a nonzero total distance, or with the route data, no gradient is \<open>NaN\<close>.\<close>

lemma jsNeg_not_NaN: "x \<noteq> NaN \<Longrightarrow> jsNeg x \<noteq> NaN"
  by (cases x) simp_all

lemma segmentGradient_not_NaN:
  assumes "i < length eps - 1"
    and "ur = None \<longrightarrow> tot \<noteq> 0 \<and> ys \<noteq> 0"
    and "segmentGradient ur rv er ys tot eps i = Inr (Some (p1, p2, g))"
  shows "g \<noteq> NaN"
proof (cases ur)
  case (Some rps)
  from segmentGradient_route[OF assms(1), of rps rv tot er ys] assms(3) Some
  obtain g' where "g = (if rv then jsNeg (Fin g') else Fin g')" by auto
  then show ?thesis by (simp add: jsNeg_not_NaN)
next
  case None
  have si: "i < length eps" "Suc i < length eps" using assms(1) by linarith+
  have el: "elemAt eps i = Inr (eps ! i)" "elemAt eps (Suc i) = Inr (eps ! Suc i)"
    using si by simp_all
  from None assms(2) have nz: "tot \<noteq> 0" "ys \<noteq> 0" by simp_all
  from assms(3) None have fb: "fallbackGradient er ys tot eps i (eps ! i) (eps ! Suc i) = Inr (Some g)"
    by (auto simp: segmentGradient_def el andThen_def split: sum.splits option.splits)
  from fallbackGradient_skip[OF nz si(2), of er "eps ! i" "eps ! Suc i"]
  obtain s e where
    skip: "px (eps ! e) - px (eps ! s) \<le> 0 \<longrightarrow> fallbackGradient er ys tot eps i (eps ! i) (eps ! Suc i) = Inr None"
    and emit: "0 < px (eps ! e) - px (eps ! s) \<longrightarrow>
                 (\<exists>g. fallbackGradient er ys tot eps i (eps ! i) (eps ! Suc i) = Inr (Some g)
                    \<and> finiteValue g = Some ((py (eps ! s) - py (eps ! e)) * er
                                / (ys * (px (eps ! e) - px (eps ! s)) * tot) * 100))"
    by (elim exE conjE) (rule that)
  from skip fb have "0 < px (eps ! e) - px (eps ! s)" by (cases "px (eps ! e) - px (eps ! s) \<le> 0") simp_all
  with emit fb obtain v where "finiteValue g = Some v" by auto
  then show ?thesis by (rule finiteValue_not_NaN)
qed

text \<open>The loop body in terms of its gradient: with seven colour stops and a nonzero band
  width it throws exactly when the gradient step throws or the gradient is \<open>NaN\<close>.\<close>

lemma segmentStep_cases:
  assumes "settings_distance st \<noteq> 0" and "length (colorStops st) = 7"
  shows "(segmentGradient ur rv er ys tot eps i = Inl e \<longrightarrow> segmentStep st ur rv er ys tot eps i = Inl e)
       \<and> (segmentGradient ur rv er ys tot eps i = Inr None \<longrightarrow> segmentStep st ur rv er ys tot eps i = Inr None)
       \<and> (segmentGradient ur rv er ys tot eps i = Inr (Some (p1, p2, NaN)) \<longrightarrow>
             segmentStep st ur rv er ys tot eps i = Inl TypeError)
       \<and> (segmentGradient ur rv er ys tot eps i = Inr (Some (p1, p2, g)) \<and> g \<noteq> NaN \<longrightarrow>
             (\<exists>c. segmentStep st ur rv er ys tot eps i
                    = Inr (Some \<lparr>p1_of = p1, p2_of = p2, gradient = g, fill = c\<rparr>)))"
proof (intro conjI impI)
  assume "segmentGradient ur rv er ys tot eps i = Inl e"
  then show "segmentStep st ur rv er ys tot eps i = Inl e" by (simp add: segmentStep_def andThen_def)
next
  assume "segmentGradient ur rv er ys tot eps i = Inr None"
  then show "segmentStep st ur rv er ys tot eps i = Inr None" by (simp add: segmentStep_def)
next
  assume "segmentGradient ur rv er ys tot eps i = Inr (Some (p1, p2, NaN))"
  then show "segmentStep st ur rv er ys tot eps i = Inl TypeError"
    by (simp add: segmentStep_def gradientToColorNum_NaN andThen_def)
next
  assume a: "segmentGradient ur rv er ys tot eps i = Inr (Some (p1, p2, g)) \<and> g \<noteq> NaN"
  with gradientToColorNum_total[OF assms, of g] obtain c where "gradientToColorNum st g = Inr c" by blast
  with a show "\<exists>c. segmentStep st ur rv er ys tot eps i
                    = Inr (Some \<lparr>p1_of = p1, p2_of = p2, gradient = g, fill = c\<rparr>)"
    by (simp add: segmentStep_def)
qed

lemma segmentStep_sample:
  assumes "segmentStep st ur rv er ys tot eps i = Inr (Some pg)"
  shows "segmentGradient ur rv er ys tot eps i = Inr (Some (sampleOf pg))"
  using assms
  by (auto simp: segmentStep_def andThen_def sampleOf_def split: sum.splits option.splits prod.splits)

lemma segmentStep_ends:
  assumes "i < length eps - 1"
    and "segmentStep st ur rv er ys tot eps i = Inr (Some pg)"
  shows "p1_of pg = eps ! i \<and> p2_of pg = eps ! Suc i"
  using segmentGradient_ends[OF assms(1) segmentStep_sample[OF assms(2), unfolded sampleOf_def]] by simp

lemma segmentStep_total:
  assumes "i < length eps - 1"
    and "settings_distance st \<noteq> 0" and "length (colorStops st) = 7"
    and "ur = None \<longrightarrow> tot \<noteq> 0 \<and> ys \<noteq> 0"
  shows "\<exists>r. segmentStep st ur rv er ys tot eps i = Inr r"
proof -
  from segmentGradient_total[OF assms(1), of ur rv er ys tot]
  obtain r where r: "segmentGradient ur rv er ys tot eps i = Inr r" ..
  show ?thesis
  proof (cases r)
    case None
    with r segmentStep_cases[OF assms(2,3), of ur rv er ys tot eps i] show ?thesis by simp
  next
    case (Some t)
    obtain p1 p2 g where t: "t = (p1, p2, g)" by (cases t)
    from r Some t have sg: "segmentGradient ur rv er ys tot eps i = Inr (Some (p1, p2, g))" by simp
    from segmentGradient_not_NaN[OF assms(1,4) sg] have "g \<noteq> NaN" .
    with sg segmentStep_cases[OF assms(2,3), of ur rv er ys tot eps i _ p1 p2 g] show ?thesis by blast
  qed
qed

text \<open>When the route data is used, a loop body that does not throw makes the polygon of its
  pair, with the windowed gradient of the route as its gradient.\<close>

lemma segmentStep_route:
  assumes "i < length eps - 1"
    and "segmentStep st (Some rps) rv er ys tot eps i = Inr res"
  shows "\<exists>pg g. res = Some pg \<and> p1_of pg = eps ! i \<and> p2_of pg = eps ! Suc i
           \<and> computeGradientAtDistance rps
               (if rv then (1 - (px (eps ! i) + px (eps ! Suc i)) / 2) * tot
                else (px (eps ! i) + px (eps ! Suc i)) / 2 * tot) tot 50 = Inr g
           \<and> gradient pg = (if rv then jsNeg (Fin g) else Fin g)"
proof -
  from segmentGradient_route[OF assms(1), of rps rv tot er ys]
  obtain g where g: "computeGradientAtDistance rps
               (if rv then (1 - (px (eps ! i) + px (eps ! Suc i)) / 2) * tot
                else (px (eps ! i) + px (eps ! Suc i)) / 2 * tot) tot 50 = Inr g"
    and sg: "segmentGradient (Some rps) rv er ys tot eps i
               = Inr (Some (eps ! i, eps ! Suc i, if rv then jsNeg (Fin g) else Fin g))"
    by (elim exE conjE) (rule that)
  from assms(2) obtain c where
    "res = Some \<lparr>p1_of = eps ! i, p2_of = eps ! Suc i,
                  gradient = (if rv then jsNeg (Fin g) else Fin g), fill = c\<rparr>"
    unfolding segmentStep_def sg andThen_Inr
    by (cases "gradientToColorNum st (if rv then jsNeg (Fin g) else Fin g)") (auto simp: andThen_def)
  with g show ?thesis by (intro exI[of _ "the res"] exI[of _ g]) simp
qed

text \<open>Two runs of the loop that differ in the settings, both with seven colour stops and a
  nonzero band width, and in the polygons gathered so far, but not in their gradient
  samples, give the same gradient samples and end the same way.\<close>

lemma segmentLoop_settings:
  assumes "settings_distance st1 \<noteq> 0" and "length (colorStops st1) = 7"
    and "settings_distance st2 \<noteq> 0" and "length (colorStops st2) = 7"
    and "map sampleOf acc1 = map sampleOf acc2"
  shows "map sampleOf (fst (segmentLoop st1 c ur rv er ys tot eps i acc1))
           = map sampleOf (fst (segmentLoop st2 c ur rv er ys tot eps i acc2))
       \<and> snd (segmentLoop st1 c ur rv er ys tot eps i acc1)
           = snd (segmentLoop st2 c ur rv er ys tot eps i acc2)"
  using assms(5)
proof (induction "length eps - i" arbitrary: i acc1 acc2)
  case 0
  then have "\<not> i < length eps - 1" by simp
  with "0.prems" show ?case by (simp add: segmentLoop_done)
next
  case (Suc n)
  show ?case
  proof (cases "i < length eps - 1")
    case False
    with Suc.prems show ?thesis by (simp add: segmentLoop_done)
  next
    case True
    have n: "n = length eps - (i + 1)" using Suc(2) by simp
    note c1 = segmentStep_cases[OF assms(1,2), of ur rv er ys tot eps i]
    note c2 = segmentStep_cases[OF assms(3,4), of ur rv er ys tot eps i]
    show ?thesis
    proof (cases "segmentGradient ur rv er ys tot eps i")
      case (Inl e)
      with c1[of e] c2[of e] have "segmentStep st1 ur rv er ys tot eps i = Inl e"
        "segmentStep st2 ur rv er ys tot eps i = Inl e" by simp_all
      with Suc.prems show ?thesis by (simp add: segmentLoop_fault[OF True])
    next
      case (Inr r)
      show ?thesis
      proof (cases r)
        case None
        with Inr c1 c2 have s: "segmentStep st1 ur rv er ys tot eps i = Inr None"
          "segmentStep st2 ur rv er ys tot eps i = Inr None" by simp_all
        show ?thesis
          unfolding segmentLoop_skip[OF True s(1)] segmentLoop_skip[OF True s(2)]
          by (rule Suc(1)[OF n Suc.prems])
      next
        case (Some t)
        obtain p1 p2 g where t: "t = (p1, p2, g)" by (cases t)
        from Inr Some t have sg: "segmentGradient ur rv er ys tot eps i = Inr (Some (p1, p2, g))" by simp
        show ?thesis
        proof (cases "g = NaN")
          case True
          with sg c1[of _ p1 p2] c2[of _ p1 p2] have "segmentStep st1 ur rv er ys tot eps i = Inl TypeError"
            "segmentStep st2 ur rv er ys tot eps i = Inl TypeError" by simp_all
          with Suc.prems show ?thesis by (simp add: segmentLoop_fault[OF \<open>i < length eps - 1\<close>])
        next
          case False
          with sg c1[of _ p1 p2 g] obtain col1 where
            s1: "segmentStep st1 ur rv er ys tot eps i
                  = Inr (Some \<lparr>p1_of = p1, p2_of = p2, gradient = g, fill = col1\<rparr>)" by blast
          from False sg c2[of _ p1 p2 g] obtain col2 where
            s2: "segmentStep st2 ur rv er ys tot eps i
                  = Inr (Some \<lparr>p1_of = p1, p2_of = p2, gradient = g, fill = col2\<rparr>)" by blast
          show ?thesis
          proof (cases c)
            case False
            then have c: "c = False" by simp
            show ?thesis
              unfolding c segmentLoop_blocked[OF \<open>i < length eps - 1\<close> s1]
                segmentLoop_blocked[OF \<open>i < length eps - 1\<close> s2]
              using Suc.prems by simp
          next
            case True
            then have c: "c = True" by simp
            have "map sampleOf (acc1 @ [\<lparr>p1_of = p1, p2_of = p2, gradient = g, fill = col1\<rparr>])
                    = map sampleOf (acc2 @ [\<lparr>p1_of = p1, p2_of = p2, gradient = g, fill = col2\<rparr>])"
              using Suc.prems by (simp add: sampleOf_def)
            from Suc(1)[OF n this] show ?thesis
              unfolding c segmentLoop_emit[OF \<open>i < length eps - 1\<close> s1]
                segmentLoop_emit[OF \<open>i < length eps - 1\<close> s2] .
          qed
        qed
      qed
    qed
  qed
qed

lemma detectRouteDirection_total: "\<exists>dir. detectRouteDirection svg rps tot = Inr dir"
  by (simp add: detectRouteDirection_value)

lemma colorSegments_loop:
  "\<exists>rv. colorSegments st rd c points =
     segmentLoop st c (useRouteData rd) rv (orOne (rd_maxElev rd - rd_minElev rd))
       (orOne (jsMax (map py points) - jsMin (map py points))) (rd_totalDistance rd)
       (filter (\<lambda>p. py p < 1) points) 0 []
     \<and> (\<forall>rps. useRouteData rd = Some rps \<longrightarrow>
            detectRouteDirection (filter (\<lambda>p. py p < 1) points) rps (rd_totalDistance rd)
              = Inr (if rv then Reverse else Forward))
     \<and> (\<forall>st'. colorSegments st' rd c points =
          segmentLoop st' c (useRouteData rd) rv (orOne (rd_maxElev rd - rd_minElev rd))
            (orOne (jsMax (map py points) - jsMin (map py points))) (rd_totalDistance rd)
            (filter (\<lambda>p. py p < 1) points) 0 [])"
proof (cases "useRouteData rd")
  case None
  then show ?thesis by (intro exI[of _ False]) (simp add: colorSegments_def Let_def)
next
  case (Some rps)
  obtain dir where d: "detectRouteDirection (filter (\<lambda>p. py p < 1) points) rps (rd_totalDistance rd) = Inr dir"
    using detectRouteDirection_total by blast
  show ?thesis
    by (rule exI[of _ "dir = Reverse"]) (cases dir; simp add: colorSegments_def Let_def Some d)
qed

text \<open>The gradient samples do not depend on the settings, as long as these have seven
  colour stops and a nonzero band width.\<close>

lemma colorSegments_settings:
  assumes "settings_distance st1 \<noteq> 0" and "length (colorStops st1) = 7"
    and "settings_distance st2 \<noteq> 0" and "length (colorStops st2) = 7"
  shows "map sampleOf (fst (colorSegments st1 rd c points)) = map sampleOf (fst (colorSegments st2 rd c points))
       \<and> snd (colorSegments st1 rd c points) = snd (colorSegments st2 rd c points)"
proof -
  let ?eps = "filter (\<lambda>p. py p < 1) points"
  let ?tot = "rd_totalDistance rd"
  let ?er = "orOne (rd_maxElev rd - rd_minElev rd)"
  let ?ys = "orOne (jsMax (map py points) - jsMin (map py points))"
  obtain rv where rv: "\<forall>st'. colorSegments st' rd c points =
      segmentLoop st' c (useRouteData rd) rv ?er ?ys ?tot ?eps 0 []"
    using colorSegments_loop[of st1 rd c points] by (elim exE conjE)
  have "map sampleOf ([] :: polygon list) = map sampleOf []" by simp
  from segmentLoop_settings[OF assms this, of c "useRouteData rd" rv ?er ?ys ?tot ?eps 0]
  show ?thesis unfolding rv[rule_format] .
qed

lemma map_filter_all_Some:
  "(\<forall>x\<in>set xs. f x \<noteq> None) \<Longrightarrow> List.map_filter f xs = map (\<lambda>x. the (f x)) xs"
  by (induction xs) (auto simp: List.map_filter_simps)

lemma length_map_filter_le: "length (List.map_filter f xs) \<le> length xs"
  by (simp add: List.map_filter_def)

text \<open>Never more polygons than pairs.\<close>

lemma colorSegments_bounded:
  "length (fst (colorSegments st rd c points)) \<le> length (filter (\<lambda>p. py p < 1) points) - 1"
proof -
  let ?eps = "filter (\<lambda>p. py p < 1) points"
  let ?tot = "rd_totalDistance rd"
  let ?er = "orOne (rd_maxElev rd - rd_minElev rd)"
  let ?ys = "orOne (jsMax (map py points) - jsMin (map py points))"
  obtain rv where rv: "colorSegments st rd c points =
     segmentLoop st c (useRouteData rd) rv ?er ?ys ?tot ?eps 0 []"
    using colorSegments_loop[of st rd c points] by (elim exE conjE)
  show ?thesis
  proof (cases c)
    case False
    then have c: "c = False" by simp
    from rv show ?thesis unfolding c by (simp add: segmentLoop_detached)
  next
    case True
    then have c: "c = True" by simp
    have "0 \<le> length ?eps - 1" by simp
    from segmentLoop_prefix[OF this, of st "useRouteData rd" rv ?er ?ys ?tot "[]"]
    obtain m where m: "m \<le> length ?eps - 1"
      "fst (segmentLoop st True (useRouteData rd) rv ?er ?ys ?tot ?eps 0 [])
        = [] @ List.map_filter (stepPolygon st (useRouteData rd) rv ?er ?ys ?tot ?eps) [0..<m]"
      by (elim exE conjE) (rule that)
    from rv m(2) have "fst (colorSegments st rd True points)
        = List.map_filter (stepPolygon st (useRouteData rd) rv ?er ?ys ?tot ?eps) [0..<m]"
      unfolding c by simp
    then have "length (fst (colorSegments st rd True points)) \<le> length [0..<m]"
      by (simp only: length_map_filter_le)
    with m(1) show ?thesis unfolding c by simp
  qed
qed

lemma orOne_nonzero: "orOne a \<noteq> 0"
  by (simp add: orOne_def)

lemma stepPolygon_pair:
  assumes "i < length eps - 1" and "stepPolygon st ur rv er ys tot eps i = Some pg"
  shows "p1_of pg = eps ! i \<and> p2_of pg = eps ! Suc i"
proof -
  from assms(2) have "segmentStep st ur rv er ys tot eps i = Inr (Some pg)"
    by (auto simp: stepPolygon_def split: sum.splits)
  from segmentStep_ends[OF assms(1) this] show ?thesis .
qed

text \<open>With seven colour stops, a nonzero band width and the active polyline a child of the
  chart, the loop ends without a fault whenever the route data is used or the total
  distance is not zero; its polygons are those of the pairs that were not skipped, in
  order.\<close>

lemma colorSegments_no_fault:
  assumes "settings_distance st \<noteq> 0" and "length (colorStops st) = 7"
    and "useRouteData rd = None \<longrightarrow> rd_totalDistance rd \<noteq> 0"
  shows "snd (colorSegments st rd True points) = None
       \<and> (\<exists>rv. fst (colorSegments st rd True points)
             = List.map_filter
                 (stepPolygon st (useRouteData rd) rv (orOne (rd_maxElev rd - rd_minElev rd))
                    (orOne (jsMax (map py points) - jsMin (map py points))) (rd_totalDistance rd)
                    (filter (\<lambda>p. py p < 1) points))
                 [0..<length (filter (\<lambda>p. py p < 1) points) - 1]
             \<and> (\<forall>rps. useRouteData rd = Some rps \<longrightarrow>
                   detectRouteDirection (filter (\<lambda>p. py p < 1) points) rps (rd_totalDistance rd)
                     = Inr (if rv then Reverse else Forward)))"
proof -
  let ?eps = "filter (\<lambda>p. py p < 1) points"
  let ?tot = "rd_totalDistance rd"
  let ?er = "orOne (rd_maxElev rd - rd_minElev rd)"
  let ?ys = "orOne (jsMax (map py points) - jsMin (map py points))"
  obtain rv where rv: "colorSegments st rd True points
        = segmentLoop st True (useRouteData rd) rv ?er ?ys ?tot ?eps 0 []"
    and dir: "\<forall>rps. useRouteData rd = Some rps \<longrightarrow>
            detectRouteDirection ?eps rps ?tot = Inr (if rv then Reverse else Forward)"
    using colorSegments_loop[of st rd True points] by (elim exE conjE)
  have "0 \<le> length ?eps - 1" by simp
  from segmentLoop_prefix[OF this, of st "useRouteData rd" rv ?er ?ys ?tot "[]"]
  obtain m where m: "m \<le> length ?eps - 1"
    "fst (segmentLoop st True (useRouteData rd) rv ?er ?ys ?tot ?eps 0 [])
       = [] @ List.map_filter (stepPolygon st (useRouteData rd) rv ?er ?ys ?tot ?eps) [0..<m]"
    "snd (segmentLoop st True (useRouteData rd) rv ?er ?ys ?tot ?eps 0 []) = None \<longrightarrow> m = length ?eps - 1"
    "\<forall>e. snd (segmentLoop st True (useRouteData rd) rv ?er ?ys ?tot ?eps 0 []) = Some e \<longrightarrow>
         m < length ?eps - 1 \<and> segmentStep st (useRouteData rd) rv ?er ?ys ?tot ?eps m = Inl e"
    by (elim exE conjE) (rule that)
  have ok: "useRouteData rd = None \<longrightarrow> ?tot \<noteq> 0 \<and> ?ys \<noteq> 0"
    using assms(3) orOne_nonzero by simp
  have none: "snd (colorSegments st rd True points) = None"
  proof (cases "snd (colorSegments st rd True points)")
    case None
    then show ?thesis .
  next
    case (Some e)
    with m(4) rv have lt: "m < length ?eps - 1"
      and f: "segmentStep st (useRouteData rd) rv ?er ?ys ?tot ?eps m = Inl e" by simp_all
    from segmentStep_total[OF lt assms(1,2) ok, of rv ?er] f show ?thesis by simp
  qed
  with m(3) rv have "m = length ?eps - 1" by simp
  with m(2) rv none dir show ?thesis by (intro conjI exI[of _ rv]) simp_all
qed

text \<open>
  Claim C7. When the route data is used, the polygon at position \<open>j\<close> is the one of the pair
  of filtered points \<open>j\<close>, \<open>j + 1\<close>. With \<open>centerX\<close> the mean of the pair's \<open>x\<close> values, its
  gradient is the windowed gradient at \<open>centerX * totalDistance\<close> when the direction found is
  \<open>Forward\<close>, and the negation of the windowed gradient at \<open>(1 - centerX) * totalDistance\<close> when
  it is \<open>Reverse\<close>. With seven colour stops, a nonzero band width and the active polyline a
  child of the chart, the loop ends without a fault and there is one polygon for each of
  the adjacent pairs, so this holds for every adjacent pair.
\<close>

theorem colorSegments_route_gradients:
  assumes "useRouteData rd = Some rps"
  shows "\<exists>dir. detectRouteDirection (filter (\<lambda>p. py p < 1) points) rps (rd_totalDistance rd) = Inr dir
     \<and> (settings_distance st \<noteq> 0 \<and> length (colorStops st) = 7 \<and> c \<longrightarrow>
           snd (colorSegments st rd c points) = None
           \<and> length (fst (colorSegments st rd c points)) = length (filter (\<lambda>p. py p < 1) points) - 1)
     \<and> (\<forall>j < length (fst (colorSegments st rd c points)).
           Suc j < length (filter (\<lambda>p. py p < 1) points)
           \<and> p1_of (fst (colorSegments st rd c points) ! j) = filter (\<lambda>p. py p < 1) points ! j
           \<and> p2_of (fst (colorSegments st rd c points) ! j) = filter (\<lambda>p. py p < 1) points ! Suc j
           \<and> (dir = Forward \<longrightarrow>
                 (\<exists>g. computeGradientAtDistance rps
                        ((px (filter (\<lambda>p. py p < 1) points ! j) + px (filter (\<lambda>p. py p < 1) points ! Suc j)) / 2
                           * rd_totalDistance rd) (rd_totalDistance rd) 50 = Inr g
                     \<and> gradient (fst (colorSegments st rd c points) ! j) = Fin g))
           \<and> (dir = Reverse \<longrightarrow>
                 (\<exists>g. computeGradientAtDistance rps
                        ((1 - (px (filter (\<lambda>p. py p < 1) points ! j) + px (filter (\<lambda>p. py p < 1) points ! Suc j)) / 2)
                           * rd_totalDistance rd) (rd_totalDistance rd) 50 = Inr g
                     \<and> gradient (fst (colorSegments st rd c points) ! j) = jsNeg (Fin g)
                     \<and> finiteValue (gradient (fst (colorSegments st rd c points) ! j)) = Some (- g))))"
proof -
  let ?eps = "filter (\<lambda>p. py p < 1) points"
  let ?tot = "rd_totalDistance rd"
  let ?er = "orOne (rd_maxElev rd - rd_minElev rd)"
  let ?ys = "orOne (jsMax (map py points) - jsMin (map py points))"
  let ?cx = "\<lambda>k. (px (?eps ! k) + px (?eps ! Suc k)) / 2"
  obtain rv where rv: "colorSegments st rd c points = segmentLoop st c (useRouteData rd) rv ?er ?ys ?tot ?eps 0 []"
    and dir: "\<forall>rps. useRouteData rd = Some rps \<longrightarrow>
            detectRouteDirection ?eps rps ?tot = Inr (if rv then Reverse else Forward)"
    using colorSegments_loop[of st rd c points] by (elim exE conjE)
  have d: "detectRouteDirection ?eps rps ?tot = Inr (if rv then Reverse else Forward)"
    using dir assms by simp
  let ?step = "segmentStep st (Some rps) rv ?er ?ys ?tot ?eps"
  let ?sp = "stepPolygon st (Some rps) rv ?er ?ys ?tot ?eps"
  let ?polys = "fst (colorSegments st rd c points)"
  have main: "(settings_distance st \<noteq> 0 \<and> length (colorStops st) = 7 \<and> c \<longrightarrow>
                 snd (colorSegments st rd c points) = None \<and> length ?polys = length ?eps - 1)
            \<and> (\<forall>j < length ?polys.
                  Suc j < length ?eps \<and> p1_of (?polys ! j) = ?eps ! j \<and> p2_of (?polys ! j) = ?eps ! Suc j
                  \<and> (\<exists>g. computeGradientAtDistance rps
                             (if rv then (1 - ?cx j) * ?tot else ?cx j * ?tot) ?tot 50 = Inr g
                        \<and> gradient (?polys ! j) = (if rv then jsNeg (Fin g) else Fin g)))"
  proof (cases c)
    case False
    then have c: "c = False" by simp
    from rv have "?polys = []" unfolding c by (simp add: segmentLoop_detached)
    then show ?thesis using c by simp
  next
    case True
    then have c: "c = True" by simp
    have "0 \<le> length ?eps - 1" by simp
    from segmentLoop_prefix[OF this, of st "Some rps" rv ?er ?ys ?tot "[]"]
    obtain m where m: "m \<le> length ?eps - 1"
      "fst (segmentLoop st True (Some rps) rv ?er ?ys ?tot ?eps 0 []) = [] @ List.map_filter ?sp [0..<m]"
      "\<forall>j. 0 \<le> j \<and> j < m \<longrightarrow> (\<exists>r. ?step j = Inr r)"
      "snd (segmentLoop st True (Some rps) rv ?er ?ys ?tot ?eps 0 []) = None \<longrightarrow> m = length ?eps - 1"
      by (elim exE conjE) (rule that)
    have some: "\<exists>pg g. ?sp k = Some pg \<and> p1_of pg = ?eps ! k \<and> p2_of pg = ?eps ! Suc k
             \<and> computeGradientAtDistance rps (if rv then (1 - ?cx k) * ?tot else ?cx k * ?tot) ?tot 50 = Inr g
             \<and> gradient pg = (if rv then jsNeg (Fin g) else Fin g)" if "k < m" for k
    proof -
      from that m(1) have k: "k < length ?eps - 1" by simp
      from m(3) that obtain r where r: "?step k = Inr r" by auto
      from segmentStep_route[OF k r] r show ?thesis by (auto simp: stepPolygon_def)
    qed
    have "\<forall>k\<in>set [0..<m]. ?sp k \<noteq> None"
    proof
      fix k assume "k \<in> set [0..<m]"
      then have "k < m" by simp
      from some[OF this] obtain pg where "?sp k = Some pg" by blast
      then show "?sp k \<noteq> None" by simp
    qed
    from map_filter_all_Some[OF this] m(2) rv
    have polys: "?polys = map (\<lambda>k. the (?sp k)) [0..<m]"
      unfolding c by (simp add: assms)
    then have len: "length ?polys = m" by simp
    have full: "snd (colorSegments st rd c points) = None \<and> length ?polys = length ?eps - 1"
      if wf: "settings_distance st \<noteq> 0 \<and> length (colorStops st) = 7 \<and> c"
    proof -
      from wf have w: "settings_distance st \<noteq> 0" "length (colorStops st) = 7" by simp_all
      have "useRouteData rd = None \<longrightarrow> rd_totalDistance rd \<noteq> 0" using assms by simp
      from colorSegments_no_fault[OF w this, of points]
      have none: "snd (colorSegments st rd True points) = None" by simp
      with rv m(4) have "m = length ?eps - 1" unfolding c by (simp add: assms)
      with none len show ?thesis unfolding c by simp
    qed
    have each: "Suc j < length ?eps \<and> p1_of (?polys ! j) = ?eps ! j \<and> p2_of (?polys ! j) = ?eps ! Suc j
                  \<and> (\<exists>g. computeGradientAtDistance rps
                             (if rv then (1 - ?cx j) * ?tot else ?cx j * ?tot) ?tot 50 = Inr g
                        \<and> gradient (?polys ! j) = (if rv then jsNeg (Fin g) else Fin g))"
      if "j < length ?polys" for j
    proof -
      from that len have jm: "j < m" by simp
      then have nth: "?polys ! j = the (?sp j)" unfolding polys by simp
      have sj: "Suc j < length ?eps" using jm m(1) by linarith
      from some[OF jm] sj show ?thesis unfolding nth by auto
    qed
    from full each show ?thesis by blast
  qed
  have neg: "finiteValue (jsNeg (Fin g)) = Some (- g)" for g
    by (intro jsNeg_finite) simp
  show ?thesis
  proof (intro exI[of _ "if rv then Reverse else Forward"] conjI)
    show "detectRouteDirection ?eps rps ?tot = Inr (if rv then Reverse else Forward)" by (rule d)
    show "settings_distance st \<noteq> 0 \<and> length (colorStops st) = 7 \<and> c \<longrightarrow>
           snd (colorSegments st rd c points) = None \<and> length ?polys = length ?eps - 1"
      using main by blast
    show "\<forall>j < length ?polys.
           Suc j < length ?eps
           \<and> p1_of (?polys ! j) = ?eps ! j
           \<and> p2_of (?polys ! j) = ?eps ! Suc j
           \<and> ((if rv then Reverse else Forward) = Forward \<longrightarrow>
                 (\<exists>g. computeGradientAtDistance rps (?cx j * ?tot) ?tot 50 = Inr g
                     \<and> gradient (?polys ! j) = Fin g))
           \<and> ((if rv then Reverse else Forward) = Reverse \<longrightarrow>
                 (\<exists>g. computeGradientAtDistance rps ((1 - ?cx j) * ?tot) ?tot 50 = Inr g
                     \<and> gradient (?polys ! j) = jsNeg (Fin g)
                     \<and> finiteValue (gradient (?polys ! j)) = Some (- g)))"
    proof (intro allI impI)
      fix j assume "j < length ?polys"
      with main obtain g where
        e: "Suc j < length ?eps" "p1_of (?polys ! j) = ?eps ! j" "p2_of (?polys ! j) = ?eps ! Suc j"
          "computeGradientAtDistance rps (if rv then (1 - ?cx j) * ?tot else ?cx j * ?tot) ?tot 50 = Inr g"
          "gradient (?polys ! j) = (if rv then jsNeg (Fin g) else Fin g)"
        by blast
      show "Suc j < length ?eps
           \<and> p1_of (?polys ! j) = ?eps ! j
           \<and> p2_of (?polys ! j) = ?eps ! Suc j
           \<and> ((if rv then Reverse else Forward) = Forward \<longrightarrow>
                 (\<exists>g. computeGradientAtDistance rps (?cx j * ?tot) ?tot 50 = Inr g
                     \<and> gradient (?polys ! j) = Fin g))
           \<and> ((if rv then Reverse else Forward) = Reverse \<longrightarrow>
                 (\<exists>g. computeGradientAtDistance rps ((1 - ?cx j) * ?tot) ?tot 50 = Inr g
                     \<and> gradient (?polys ! j) = jsNeg (Fin g)
                     \<and> finiteValue (gradient (?polys ! j)) = Some (- g)))"
      proof (cases rv)
        case True
        with e neg[of g] show ?thesis by (intro conjI impI exI[of _ g]) simp_all
      next
        case False
        with e show ?thesis by (intro conjI impI exI[of _ g]) simp_all
      qed
    qed
  qed
qed

lemma color_up: "gradientToColor defaultSettings 10 = Inr ''#e78d40''"
  by code_simp

lemma color_down: "gradientToColor defaultSettings (- 10) = Inr ''#1ca5e7''"
  by code_simp

lemma elemAt_Cons_Suc [simp]: "elemAt (x # xs) (Suc n) = elemAt xs n"
  by (simp add: elemAt_def)

lemma elemAt_Cons_0 [simp]: "elemAt (x # xs) 0 = Inr x"
  by (simp add: elemAt_def)

lemma gradient_upDown_250: "computeGradientAtDistance upDown 250 1000 50 = Inr 10"
  by (simp add: computeGradientAtDistance_value elevationAt_upDown)

lemma gradient_upDown_750: "computeGradientAtDistance upDown 750 1000 50 = Inr (- 10)"
  by (simp add: computeGradientAtDistance_value elevationAt_upDown)

lemma gradient_shortRamp_50: "computeGradientAtDistance shortRamp 50 100 50 = Inr 10"
  by (simp add: computeGradientAtDistance_value elevationAt_shortRamp)

lemma colorSegments_upDown:
  "colorSegments defaultSettings upDownData True arch =
     ([\<lparr>p1_of = \<lparr>px = 0, py = 1 / 2\<rparr>, p2_of = \<lparr>px = 1 / 2, py = 1 / 5\<rparr>,
          gradient = Fin 10, fill = ''#e78d40''\<rparr>,
       \<lparr>p1_of = \<lparr>px = 1 / 2, py = 1 / 5\<rparr>, p2_of = \<lparr>px = 1, py = 1 / 2\<rparr>,
          gradient = Fin (- 10), fill = ''#1ca5e7''\<rparr>], None)"
proof -
  let ?eps = "[\<lparr>px = 0, py = 1 / 2\<rparr>, \<lparr>px = 1 / 2, py = 1 / 5\<rparr>, \<lparr>px = 1, py = 1 / 2\<rparr>]"
  have eps: "filter (\<lambda>p. py p < 1) arch = ?eps" by (simp add: arch_def)
  have ur: "useRouteData upDownData = Some upDown"
    by (simp add: useRouteData_def upDownData_def upDown_def)
  note col = color_up[unfolded gradientToColor_def] color_down[unfolded gradientToColor_def]
  have s0: "segmentStep defaultSettings (Some upDown) False er ys 1000 ?eps 0
              = Inr (Some \<lparr>p1_of = \<lparr>px = 0, py = 1 / 2\<rparr>, p2_of = \<lparr>px = 1 / 2, py = 1 / 5\<rparr>,
                            gradient = Fin 10, fill = ''#e78d40''\<rparr>)" for er ys
    by (simp add: segmentStep_def segmentGradient_def routeGradient_def gradient_upDown_250 col)
  have s1: "segmentStep defaultSettings (Some upDown) False er ys 1000 ?eps (0 + 1)
              = Inr (Some \<lparr>p1_of = \<lparr>px = 1 / 2, py = 1 / 5\<rparr>, p2_of = \<lparr>px = 1, py = 1 / 2\<rparr>,
                            gradient = Fin (- 10), fill = ''#1ca5e7''\<rparr>)" for er ys
    by (simp add: segmentStep_def segmentGradient_def routeGradient_def gradient_upDown_750 col)
  have l0: "0 < length ?eps - 1" and l1: "0 + 1 < length ?eps - 1" and l2: "\<not> 0 + 1 + 1 < length ?eps - 1"
    by simp_all
  have "segmentLoop defaultSettings True (Some upDown) False er ys 1000 ?eps 0 [] =
     ([\<lparr>p1_of = \<lparr>px = 0, py = 1 / 2\<rparr>, p2_of = \<lparr>px = 1 / 2, py = 1 / 5\<rparr>,
          gradient = Fin 10, fill = ''#e78d40''\<rparr>,
       \<lparr>p1_of = \<lparr>px = 1 / 2, py = 1 / 5\<rparr>, p2_of = \<lparr>px = 1, py = 1 / 2\<rparr>,
          gradient = Fin (- 10), fill = ''#1ca5e7''\<rparr>], None)" for er ys
    unfolding segmentLoop_emit[OF l0 s0] segmentLoop_emit[OF l1 s1] segmentLoop_done[OF l2]
    by simp
  then show ?thesis
    unfolding colorSegments_def Let_def eps ur
    by (simp add: upDownData_def detectRouteDirection_upDown)
qed

lemma colorSegments_shortRamp:
  "colorSegments defaultSettings rampData True descendingCurve =
     ([\<lparr>p1_of = \<lparr>px = 0, py = 1 / 5\<rparr>, p2_of = \<lparr>px = 1, py = 4 / 5\<rparr>,
          gradient = Fin (- 10), fill = ''#1ca5e7''\<rparr>], None)"
proof -
  let ?eps = "[\<lparr>px = 0, py = 1 / 5\<rparr>, \<lparr>px = 1, py = 4 / 5\<rparr>]"
  have eps: "filter (\<lambda>p. py p < 1) descendingCurve = descendingCurve" "descendingCurve = ?eps"
    by (simp_all add: descendingCurve_def)
  have ur: "useRouteData rampData = Some shortRamp"
    by (simp add: useRouteData_def rampData_def shortRamp_def)
  note col = color_down[unfolded gradientToColor_def]
  have s0: "segmentStep defaultSettings (Some shortRamp) True er ys 100 ?eps 0
              = Inr (Some \<lparr>p1_of = \<lparr>px = 0, py = 1 / 5\<rparr>, p2_of = \<lparr>px = 1, py = 4 / 5\<rparr>,
                            gradient = Fin (- 10), fill = ''#1ca5e7''\<rparr>)" for er ys
    by (simp add: segmentStep_def segmentGradient_def routeGradient_def gradient_shortRamp_50 exact_def col)
  have l0: "0 < length ?eps - 1" and l1: "\<not> 0 + 1 < length ?eps - 1" by simp_all
  have loop: "segmentLoop defaultSettings True (Some shortRamp) True er ys 100 ?eps 0 [] =
     ([\<lparr>p1_of = \<lparr>px = 0, py = 1 / 5\<rparr>, p2_of = \<lparr>px = 1, py = 4 / 5\<rparr>,
          gradient = Fin (- 10), fill = ''#1ca5e7''\<rparr>], None)" for er ys
    unfolding segmentLoop_emit[OF l0 s0] segmentLoop_done[OF l1] by simp
  have "detectRouteDirection descendingCurve shortRamp (rd_totalDistance rampData) = Inr Reverse"
    using detectRouteDirection_shortRamp by (simp add: rampData_def)
  then show ?thesis
    unfolding colorSegments_def Let_def eps(1) ur
    by (simp add: loop[unfolded eps(2)[symmetric]] rampData_def)
qed

theorem colorSegments_route_gradients_witness:
  "detectRouteDirection (filter (\<lambda>p. py p < 1) descendingCurve) shortRamp (rd_totalDistance rampData)
      = Inr Reverse
   \<and> length (fst (colorSegments defaultSettings rampData True descendingCurve))
      = length (filter (\<lambda>p. py p < 1) descendingCurve) - 1
   \<and> map gradient (fst (colorSegments defaultSettings rampData True descendingCurve)) = [Fin (- 10)]
   \<and> computeGradientAtDistance shortRamp ((1 - (0 + 1) / 2) * 100) 100 50 = Inr 10
   \<and> detectRouteDirection (filter (\<lambda>p. py p < 1) arch) upDown (rd_totalDistance upDownData)
      = Inr Forward
   \<and> length (fst (colorSegments defaultSettings upDownData True arch))
      = length (filter (\<lambda>p. py p < 1) arch) - 1
   \<and> snd (colorSegments defaultSettings upDownData True arch) = None
   \<and> map gradient (fst (colorSegments defaultSettings upDownData True arch)) = [Fin 10, Fin (- 10)]
   \<and> computeGradientAtDistance upDown ((1 / 2 + 1) / 2 * 1000) 1000 50 = Inr (- 10)"
proof -
  have wf: "settings_distance defaultSettings \<noteq> 0" "length (colorStops defaultSettings) = 7"
    by (simp_all add: defaultSettings_def)
  have ur: "useRouteData rampData = Some shortRamp"
    by (simp add: useRouteData_def rampData_def shortRamp_def)
  have ur2: "useRouteData upDownData = Some upDown"
    by (simp add: useRouteData_def upDownData_def upDown_def)
  have d1: "detectRouteDirection (filter (\<lambda>p. py p < 1) descendingCurve) shortRamp (rd_totalDistance rampData)
      = Inr Reverse"
    using detectRouteDirection_shortRamp by (simp add: rampData_def descendingCurve_def)
  have d2: "detectRouteDirection (filter (\<lambda>p. py p < 1) arch) upDown (rd_totalDistance upDownData)
      = Inr Forward"
    by (simp add: upDownData_def detectRouteDirection_upDown)
  have eps: "filter (\<lambda>p. py p < 1) descendingCurve = descendingCurve"
    by (simp add: descendingCurve_def)
  have jn: "jsNeg (Fin g) = Fin (- 10) \<longleftrightarrow> g = 10" for g
    by (auto simp: exact_def signedZero_def)
  from colorSegments_route_gradients[OF ur, of descendingCurve defaultSettings True, unfolded d1] wf
  have a: "computeGradientAtDistance shortRamp ((1 - (0 + 1) / 2) * 100) 100 50 = Inr 10
      \<and> length (fst (colorSegments defaultSettings rampData True descendingCurve))
          = length (filter (\<lambda>p. py p < 1) descendingCurve) - 1"
    unfolding eps
    apply (simp add: colorSegments_shortRamp jn)
    apply (simp add: descendingCurve_def rampData_def)
    done
  have eps2: "filter (\<lambda>p. py p < 1) arch
                = [\<lparr>px = 0, py = 1 / 2\<rparr>, \<lparr>px = 1 / 2, py = 1 / 5\<rparr>, \<lparr>px = 1, py = 1 / 2\<rparr>]"
    by (simp add: arch_def)
  from colorSegments_route_gradients[OF ur2, of arch defaultSettings True, unfolded d2] wf
  have b: "computeGradientAtDistance upDown ((1 / 2 + 1) / 2 * 1000) 1000 50 = Inr (- 10)
      \<and> snd (colorSegments defaultSettings upDownData True arch) = None
      \<and> length (fst (colorSegments defaultSettings upDownData True arch))
          = length (filter (\<lambda>p. py p < 1) arch) - 1"
    unfolding eps2
    apply (simp add: colorSegments_upDown All_less_Suc)
    apply (simp add: upDownData_def)
    done
  from a b d1 d2 show ?thesis
    by (simp add: colorSegments_shortRamp colorSegments_upDown)
qed

text \<open>With a total distance of zero the fallback branch divides by zero. Over the rising
  line the width \<open>minDX\<close> and the gradient are \<open>+Infinity\<close>, which the colour scale clamps:
  the loop inserts a polygon in the last colour.\<close>

lemma colorSegments_zero_distance_slope:
  "colorSegments defaultSettings pointData True risingCurve =
     ([\<lparr>p1_of = \<lparr>px = 0, py = 1 / 2\<rparr>, p2_of = \<lparr>px = 1, py = 1 / 4\<rparr>,
          gradient = PInf, fill = ''#430102''\<rparr>], None)"
proof -
  let ?eps = "[\<lparr>px = 0, py = 1 / 2\<rparr>, \<lparr>px = 1, py = 1 / 4\<rparr>]"
  have eps: "filter (\<lambda>p. py p < 1) risingCurve = ?eps" by (simp add: risingCurve_def)
  have ur: "useRouteData pointData = None" by (simp add: useRouteData_def pointData_def)
  have ys: "orOne (jsMax (map py risingCurve) - jsMin (map py risingCurve)) = 1 / 4"
    by (simp add: risingCurve_def jsMax_def jsMin_def orOne_def)
  have er: "orOne (rd_maxElev pointData - rd_minElev pointData) = 1"
    by (simp add: pointData_def orOne_def)
  have l0: "0 < length ?eps - 1" and l1: "\<not> 0 + 1 < length ?eps - 1" by simp_all
  have top: "gradientToColorNum defaultSettings PInf = Inr ''#430102''"
    by code_simp
  have g0: "segmentGradient None False 1 (1 / 4) 0 ?eps 0
              = Inr (Some (\<lparr>px = 0, py = 1 / 2\<rparr>, \<lparr>px = 1, py = 1 / 4\<rparr>, PInf))"
    by (simp add: segmentGradient_def fallbackGradient_def walkEnd.simps jsMul_def jsDivide_def
          jsAdd_def jsSub_def jsLess_def jsLessEq_def exact_def signedZero_def signedInf_def)
  have s0: "segmentStep defaultSettings None False 1 (1 / 4) 0 ?eps 0
              = Inr (Some \<lparr>p1_of = \<lparr>px = 0, py = 1 / 2\<rparr>, p2_of = \<lparr>px = 1, py = 1 / 4\<rparr>,
                            gradient = PInf, fill = ''#430102''\<rparr>)"
    by (simp add: segmentStep_def g0 top)
  have loop: "segmentLoop defaultSettings True None False 1 (1 / 4) 0 ?eps 0 [] =
     ([\<lparr>p1_of = \<lparr>px = 0, py = 1 / 2\<rparr>, p2_of = \<lparr>px = 1, py = 1 / 4\<rparr>,
          gradient = PInf, fill = ''#430102''\<rparr>], None)"
    unfolding segmentLoop_emit[OF l0 s0] segmentLoop_done[OF l1] by simp
  show ?thesis
    unfolding colorSegments_def Let_def eps ur ys er
    by (simp add: pointData_def loop)
qed


lemma walkStart_NInf: "i < length eps \<Longrightarrow> walkStart eps NInf i = Inr 0"
  by (induction i) (simp_all add: jsLess_def)

lemma walkEnd_PInf:
  assumes "e < length eps"
  shows "walkEnd eps PInf e = Inr (length eps - 1)"
  using assms
proof (induction "length eps - e" arbitrary: e)
  case 0
  then show ?case by simp
next
  case (Suc n)
  show ?case
  proof (cases "e < length eps - 1")
    case True
    then have "e + 1 < length eps" "n = length eps - (e + 1)" using Suc(2) by linarith+
    from Suc(1)[OF this(2,1)] True Suc.prems show ?thesis
      by (subst walkEnd.simps) (simp add: jsLess_def)
  next
    case False
    with Suc.prems have "e = length eps - 1" by linarith
    with False show ?thesis by (subst walkEnd.simps) simp
  qed
qed

lemma finite_nonzero: "finiteValue x = Some v \<Longrightarrow> v \<noteq> 0 \<Longrightarrow> x = Fin v"
  by (cases x) auto

lemma jsDivide_zero_by_zero: "finiteValue x = Some 0 \<Longrightarrow> jsDivide x (Fin 0) = NaN"
  by (simp add: jsDivide_def finiteValue_not_NaN)

lemma jsDivide_Fin_zero: "v \<noteq> 0 \<Longrightarrow> jsDivide (Fin v) (Fin 0) = (if v < 0 then NInf else PInf)"
  by (simp add: jsDivide_def signedInf_def)

text \<open>With a total distance of zero (and positive scaling factors) the fallback branch
  widens every pair to the whole curve; the gradient is an infinity with the sign of the
  climb from the first to the last point, and \<open>NaN\<close> when these are level.\<close>

lemma fallbackGradient_zero_distance:
  assumes "0 < er" and "0 < ys" and "Suc i < length eps"
  shows "fallbackGradient er ys 0 eps i p1 p2 =
           (if px (last eps) - px (hd eps) \<le> 0 then Inr None
            else Inr (Some (if py (hd eps) = py (last eps) then NaN
                            else if py (last eps) < py (hd eps) then PInf else NInf)))"
proof -
  have ne: "eps \<noteq> []" using assms(3) by auto
  have minDX: "jsDivide (jsMul (jsMul (Fin 0.001) (Fin er)) (Fin 100))
                    (jsMul (jsMul (Fin ys) (Fin 1)) (Fin 0)) = PInf"
    using assms(1,2) by (simp add: jsMul_def jsDivide_def exact_def signedZero_def signedInf_def)
  have cx: "finiteValue (jsDivide (jsAdd (Fin (px p1)) (Fin (px p2))) (Fin 2))
              = Some ((px p1 + px p2) / 2)"
    by (intro jsDivide_finite jsAdd_finite) simp_all
  have ts: "jsSub (jsDivide (jsAdd (Fin (px p1)) (Fin (px p2))) (Fin 2)) (jsDivide PInf (Fin 2)) = NInf"
    using cx finiteValue_not_NaN[OF cx]
    by (simp add: jsSub_def jsAdd_def jsDivide_def signedInf_def)
  have te: "jsAdd (jsDivide (jsAdd (Fin (px p1)) (Fin (px p2))) (Fin 2)) (jsDivide PInf (Fin 2)) = PInf"
    using cx finiteValue_not_NaN[OF cx]
    by (simp add: jsAdd_def jsDivide_def signedInf_def)
  have s: "walkStart eps NInf i = Inr 0" using assms(3) by (intro walkStart_NInf) simp
  have e: "walkEnd eps PInf (i + 1) = Inr (length eps - 1)" using assms(3) by (intro walkEnd_PInf) simp
  have el: "elemAt eps 0 = Inr (hd eps)" "elemAt eps (length eps - 1) = Inr (last eps)"
    using ne by (simp_all add: elemAt_def hd_conv_nth last_conv_nth)
  have dx: "jsLessEq (jsSub (Fin (px (last eps))) (Fin (px (hd eps)))) (Fin 0)
              = (px (last eps) - px (hd eps) \<le> 0)"
    by (intro jsLessEq_finite jsSub_finite) simp_all
  have fb: "fallbackGradient er ys 0 eps i p1 p2 =
             (if px (last eps) - px (hd eps) \<le> 0 then Inr None
              else Inr (Some (jsMul (jsDivide (jsMul (jsSub (Fin (py (hd eps))) (Fin (py (last eps)))) (Fin er))
                                       (jsMul (jsMul (Fin ys) (jsSub (Fin (px (last eps))) (Fin (px (hd eps)))))
                                          (Fin 0)))
                                (Fin 100))))"
    unfolding fallbackGradient_def Let_def minDX ts te s e el andThen_Inr dx ..
  have g: "jsMul (jsDivide (jsMul (jsSub (Fin (py (hd eps))) (Fin (py (last eps)))) (Fin er))
                                       (jsMul (jsMul (Fin ys) (jsSub (Fin (px (last eps))) (Fin (px (hd eps)))))
                                          (Fin 0)))
                                (Fin 100)
             = (if py (hd eps) = py (last eps) then NaN
                else if py (last eps) < py (hd eps) then PInf else NInf)"
    if pos: "\<not> px (last eps) - px (hd eps) \<le> 0"
  proof -
    let ?num = "jsMul (jsSub (Fin (py (hd eps))) (Fin (py (last eps)))) (Fin er)"
    have num: "finiteValue ?num = Some ((py (hd eps) - py (last eps)) * er)"
      by (intro jsMul_finite jsSub_finite) simp_all
    have "finiteValue (jsMul (Fin ys) (jsSub (Fin (px (last eps))) (Fin (px (hd eps)))))
            = Some (ys * (px (last eps) - px (hd eps)))"
      by (intro jsMul_finite jsSub_finite) simp_all
    moreover have "ys * (px (last eps) - px (hd eps)) \<noteq> 0" using pos assms(2) by simp
    ultimately have "jsMul (Fin ys) (jsSub (Fin (px (last eps))) (Fin (px (hd eps))))
            = Fin (ys * (px (last eps) - px (hd eps)))"
      by (rule finite_nonzero)
    moreover have "0 < ys * (px (last eps) - px (hd eps))" using pos assms(2) by simp
    ultimately have den: "jsMul (jsMul (Fin ys) (jsSub (Fin (px (last eps))) (Fin (px (hd eps))))) (Fin 0)
            = Fin 0"
      by (simp add: jsMul_def exact_def signedZero_def)
    show ?thesis
    proof (cases "py (hd eps) = py (last eps)")
      case True
      with num have "finiteValue ?num = Some 0" by simp
      from jsDivide_zero_by_zero[OF this] True show ?thesis unfolding den by (simp add: jsMul_def)
    next
      case False
      then have nz: "(py (hd eps) - py (last eps)) * er \<noteq> 0" using assms(1) by simp
      from finite_nonzero[OF num nz] have n: "?num = Fin ((py (hd eps) - py (last eps)) * er)" .
      have sgn: "(py (hd eps) - py (last eps)) * er < 0 \<longleftrightarrow> \<not> py (last eps) < py (hd eps)"
        using assms(1) False by (auto simp: mult_less_0_iff)
      show ?thesis
        unfolding den n jsDivide_Fin_zero[OF nz] sgn using False
        by (simp add: jsMul_def signedInf_def)
    qed
  qed
  show ?thesis unfolding fb using g by simp
qed

text \<open>So on a route of zero length without route points, every curve whose first and last
  elevation points are level makes the loop throw at its first segment, whatever the
  settings are.\<close>

lemma colorSegments_zero_distance_level:
  assumes "useRouteData rd = None" and "rd_totalDistance rd = 0"
    and "rd_minElev rd \<le> rd_maxElev rd"
    and "2 \<le> length (filter (\<lambda>p. py p < 1) points)"
    and "px (hd (filter (\<lambda>p. py p < 1) points)) < px (last (filter (\<lambda>p. py p < 1) points))"
    and "py (hd (filter (\<lambda>p. py p < 1) points)) = py (last (filter (\<lambda>p. py p < 1) points))"
  shows "colorSegments st rd c points = ([], Some TypeError)"
proof -
  let ?eps = "filter (\<lambda>p. py p < 1) points"
  let ?er = "orOne (rd_maxElev rd - rd_minElev rd)"
  let ?ys = "orOne (jsMax (map py points) - jsMin (map py points))"
  have er: "0 < ?er" using assms(3) by (simp add: orOne_def)
  have ne: "map py points \<noteq> []" using assms(4) by auto
  have "Min (set (map py points)) \<le> Max (set (map py points))"
    using ne by (intro Min_le_iff[THEN iffD2]) (auto intro!: bexI[of _ "Max (set (map py points))"])
  then have ys: "0 < ?ys" by (simp add: orOne_def jsMin_Min[OF ne] jsMax_Max[OF ne])
  have l0: "0 < length ?eps - 1" and si: "Suc 0 < length ?eps" using assms(4) by simp_all
  have el: "elemAt ?eps 0 = Inr (?eps ! 0)" "elemAt ?eps (Suc 0) = Inr (?eps ! Suc 0)"
    using si by (auto simp: elemAt_def)
  have fb: "fallbackGradient ?er ?ys 0 ?eps 0 (?eps ! 0) (?eps ! Suc 0) = Inr (Some NaN)"
    unfolding fallbackGradient_zero_distance[OF er ys si] using assms(5,6) by simp
  have sg: "segmentGradient None False ?er ?ys 0 ?eps 0 = Inr (Some (?eps ! 0, ?eps ! Suc 0, NaN))"
    by (simp add: segmentGradient_def el fb)
  have s0: "segmentStep st None False ?er ?ys 0 ?eps 0 = Inl TypeError"
    by (simp add: segmentStep_def sg gradientToColorNum_NaN andThen_def)
  show ?thesis
    unfolding colorSegments_def Let_def assms(1,2) option.case
    by (rule segmentLoop_fault[OF l0 s0])
qed

text \<open>
  Claim C8 fails on the code. For a route of a single point and total distance 0 the
  fallback branch is taken. Over the flat line its width \<open>minDX\<close> is \<open>+Infinity\<close>, the span
  is the whole line, \<open>dX\<close> is 1 and \<open>dY\<close> is 0, so the gradient is zero divided by zero,
  \<open>NaN\<close>. In \<open>gradientToColor\<close> the band index is \<open>NaN\<close> too, both colour stops read are
  \<open>undefined\<close>, and \<open>lerpColor\<close> throws a \<open>TypeError\<close>: the loop ends with this exception
  and inserts no polygon. The same happens on every curve whose first and last elevation
  points are level, with any settings: \<open>colorSegments_zero_distance_level\<close>.
  (With seven colour stops, a nonzero band width and the active polyline a child of the
  chart, the loop ends without a fault for any other total distance and whenever the route
  data is used: \<open>colorSegments_no_fault\<close>. It never inserts more than one polygon per pair:
  \<open>colorSegments_bounded\<close>. A pair whose widened span is not positive is skipped, whatever
  the total distance: \<open>fallbackGradient_span\<close>.)
\<close>

theorem colorSegments_zero_distance_fault:
  "colorSegments defaultSettings pointData True flatCurve = ([], Some TypeError)"
proof -
  let ?eps = "[\<lparr>px = 0, py = 1 / 2\<rparr>, \<lparr>px = 1, py = 1 / 2\<rparr>]"
  have eps: "filter (\<lambda>p. py p < 1) flatCurve = ?eps" by (simp add: flatCurve_def)
  have ur: "useRouteData pointData = None" by (simp add: useRouteData_def pointData_def)
  have ys: "orOne (jsMax (map py flatCurve) - jsMin (map py flatCurve)) = 1"
    by (simp add: flatCurve_def jsMax_def jsMin_def orOne_def)
  have er: "orOne (rd_maxElev pointData - rd_minElev pointData) = 1"
    by (simp add: pointData_def orOne_def)
  have l0: "0 < length ?eps - 1" by simp
  have g0: "segmentGradient None False 1 1 0 ?eps 0
              = Inr (Some (\<lparr>px = 0, py = 1 / 2\<rparr>, \<lparr>px = 1, py = 1 / 2\<rparr>, NaN))"
    by (simp add: segmentGradient_def fallbackGradient_def walkEnd.simps jsMul_def jsDivide_def
          jsAdd_def jsSub_def jsLess_def jsLessEq_def exact_def signedZero_def signedInf_def)
  have s0: "segmentStep defaultSettings None False 1 1 0 ?eps 0 = Inl TypeError"
    by (simp add: segmentStep_def g0 gradientToColorNum_NaN andThen_def)
  show ?thesis
    unfolding colorSegments_def Let_def eps ur ys er
    by (simp add: pointData_def segmentLoop_fault[OF l0 s0])
qed

subsection \<open>Processing a chart again\<close>

lemma processElevationSVG_run:
  assumes "\<not> gradientColored s" and "strokePolylines s \<noteq> []"
    and "2 \<le> length (points_of (last (strokePolylines s)))"
  shows "processElevationSVG st (Some rd) (Some s) =
           (case colorSegments st rd (directChild (last (strokePolylines s)))
                   (points_of (last (strokePolylines s))) of
              (polys, None) \<Rightarrow> (Some (s\<lparr>polygons := polys, gradientColored := True\<rparr>), None)
            | (polys, Some e) \<Rightarrow> (Some (s\<lparr>polygons := polys\<rparr>), Some e))"
  using assms by (simp add: processElevationSVG_def Let_def)

lemma processElevationSVG_polygons:
  assumes "\<not> gradientColored s" and "strokePolylines s \<noteq> []"
    and "2 \<le> length (points_of (last (strokePolylines s)))"
  shows "map_option polygons (fst (processElevationSVG st (Some rd) (Some s)))
           = Some (fst (colorSegments st rd (directChild (last (strokePolylines s)))
                          (points_of (last (strokePolylines s)))))"
    and "snd (processElevationSVG st (Some rd) (Some s))
           = snd (colorSegments st rd (directChild (last (strokePolylines s)))
                    (points_of (last (strokePolylines s))))"
proof -
  obtain polys err where cs: "colorSegments st rd (directChild (last (strokePolylines s)))
                    (points_of (last (strokePolylines s))) = (polys, err)"
    by (cases "colorSegments st rd (directChild (last (strokePolylines s)))
                    (points_of (last (strokePolylines s)))")
  show "map_option polygons (fst (processElevationSVG st (Some rd) (Some s)))
           = Some (fst (colorSegments st rd (directChild (last (strokePolylines s)))
                          (points_of (last (strokePolylines s)))))"
    unfolding processElevationSVG_run[OF assms] cs by (cases err) simp_all
  show "snd (processElevationSVG st (Some rd) (Some s))
           = snd (colorSegments st rd (directChild (last (strokePolylines s)))
                    (points_of (last (strokePolylines s))))"
    unfolding processElevationSVG_run[OF assms] cs by (cases err) simp_all
qed

lemma map_option_polygons:
  "map_option (f \<circ> polygons) x = map_option f (map_option polygons x)"
  by (simp add: option.map_comp)

text \<open>Running \<open>processElevationSVG\<close> on its own result changes nothing.\<close>

lemma processElevationSVG_again:
  "processElevationSVG st rdo (fst (processElevationSVG st rdo svg)) = processElevationSVG st rdo svg"
proof (cases rdo)
  case None
  then show ?thesis by (simp add: processElevationSVG_def)
next
  case (Some rd)
  show ?thesis
  proof (cases svg)
    case None
    with Some show ?thesis by (simp add: processElevationSVG_def)
  next
    case (Some s)
    note rd = \<open>rdo = Some rd\<close>
    show ?thesis
    proof (cases "\<not> gradientColored s \<and> strokePolylines s \<noteq> []
                    \<and> 2 \<le> length (points_of (last (strokePolylines s)))")
      case False
      then have "processElevationSVG st (Some rd) (Some s) = (Some s, None)"
        by (auto simp: processElevationSVG_def Let_def)
      then show ?thesis by (simp add: rd Some)
    next
      case True
      let ?c = "directChild (last (strokePolylines s))"
      let ?pts = "points_of (last (strokePolylines s))"
      from True have run: "processElevationSVG st (Some rd) (Some s) =
           (case colorSegments st rd ?c ?pts of
              (polys, None) \<Rightarrow> (Some (s\<lparr>polygons := polys, gradientColored := True\<rparr>), None)
            | (polys, Some e) \<Rightarrow> (Some (s\<lparr>polygons := polys\<rparr>), Some e))"
        by (intro processElevationSVG_run) simp_all
      obtain polys err where cs: "colorSegments st rd ?c ?pts = (polys, err)"
        by (cases "colorSegments st rd ?c ?pts")
      show ?thesis
      proof (cases err)
        case None
        have first: "processElevationSVG st (Some rd) (Some s)
                       = (Some (s\<lparr>polygons := polys, gradientColored := True\<rparr>), None)"
          unfolding run cs None by simp
        show ?thesis
          unfolding rd Some first by (simp add: processElevationSVG_def)
      next
        case (Some e)
        have first: "processElevationSVG st (Some rd) (Some s) = (Some (s\<lparr>polygons := polys\<rparr>), Some e)"
          unfolding run cs Some by simp
        have "processElevationSVG st (Some rd) (Some (s\<lparr>polygons := polys\<rparr>))
                = (Some (s\<lparr>polygons := polys\<rparr>), Some e)"
          using True by (subst processElevationSVG_run) (simp_all add: cs Some)
        then show ?thesis
          unfolding rd \<open>svg = Some s\<close> first by simp
      qed
    qed
  qed
qed

lemma colorSegments_upDown_detached:
  "colorSegments defaultSettings upDownData False arch = ([], Some NotFoundError)"
proof -
  let ?eps = "[\<lparr>px = 0, py = 1 / 2\<rparr>, \<lparr>px = 1 / 2, py = 1 / 5\<rparr>, \<lparr>px = 1, py = 1 / 2\<rparr>]"
  have eps: "filter (\<lambda>p. py p < 1) arch = ?eps" by (simp add: arch_def)
  have ur: "useRouteData upDownData = Some upDown"
    by (simp add: useRouteData_def upDownData_def upDown_def)
  have s0: "segmentStep defaultSettings (Some upDown) False er ys 1000 ?eps 0
              = Inr (Some \<lparr>p1_of = \<lparr>px = 0, py = 1 / 2\<rparr>, p2_of = \<lparr>px = 1 / 2, py = 1 / 5\<rparr>,
                            gradient = Fin 10, fill = ''#e78d40''\<rparr>)" for er ys
    by (simp add: segmentStep_def segmentGradient_def routeGradient_def gradient_upDown_250
          color_up[unfolded gradientToColor_def])
  have l0: "0 < length ?eps - 1" by simp
  show ?thesis
    unfolding colorSegments_def Let_def eps ur
    by (simp add: upDownData_def detectRouteDirection_upDown segmentLoop_blocked[OF l0 s0])
qed

lemma colorSegments_upDown_noStops:
  "colorSegments noStops upDownData True arch = ([], Some TypeError)"
proof -
  let ?eps = "[\<lparr>px = 0, py = 1 / 2\<rparr>, \<lparr>px = 1 / 2, py = 1 / 5\<rparr>, \<lparr>px = 1, py = 1 / 2\<rparr>]"
  have eps: "filter (\<lambda>p. py p < 1) arch = ?eps" by (simp add: arch_def)
  have ur: "useRouteData upDownData = Some upDown"
    by (simp add: useRouteData_def upDownData_def upDown_def)
  have col: "gradientToColorNum noStops (Fin 10) = Inl TypeError"
    by (simp add: gradientToColorNum_def noStops_def jsDivide_def exact_def clampNum_def
          stopAt_def andThen_def Let_def)
  have s0: "segmentStep noStops (Some upDown) False er ys 1000 ?eps 0 = Inl TypeError" for er ys
    by (simp add: segmentStep_def segmentGradient_def routeGradient_def gradient_upDown_250 col andThen_def)
  have l0: "0 < length ?eps - 1" by simp
  show ?thesis
    unfolding colorSegments_def Let_def eps ur
    by (simp add: upDownData_def detectRouteDirection_upDown segmentLoop_fault[OF l0 s0])
qed

text \<open>
  Claim C9, as stated, fails: the gradients that the loop leaves in the chart depend on
  more than the screen points, the elevation series and the direction. The three runs
  below have the same screen points (the arch), the same route data and so the same
  direction. With the default settings and the polyline a child of the chart the gradients
  are 10 and -10. When the polyline sits inside a group element, \<open>insertBefore\<close> throws at
  the first polygon and no gradient is left; when the settings have no colour stops,
  \<open>lerpColor\<close> throws at the first segment and no gradient is left either.
\<close>

theorem processElevationSVG_gradients_counterexample:
  "points_of (last (strokePolylines freshChart)) = points_of (last (strokePolylines nestedChart))
   \<and> map_option (map gradient \<circ> polygons)
        (fst (processElevationSVG defaultSettings (Some upDownData) (Some freshChart)))
      = Some [Fin 10, Fin (- 10)]
   \<and> snd (processElevationSVG defaultSettings (Some upDownData) (Some freshChart)) = None
   \<and> map_option (map gradient \<circ> polygons)
        (fst (processElevationSVG defaultSettings (Some upDownData) (Some nestedChart)))
      = Some []
   \<and> snd (processElevationSVG defaultSettings (Some upDownData) (Some nestedChart))
      = Some NotFoundError
   \<and> map_option (map gradient \<circ> polygons)
        (fst (processElevationSVG noStops (Some upDownData) (Some freshChart)))
      = Some []
   \<and> snd (processElevationSVG noStops (Some upDownData) (Some freshChart)) = Some TypeError"
proof -
  have f: "\<not> gradientColored freshChart" "strokePolylines freshChart \<noteq> []"
    "2 \<le> length (points_of (last (strokePolylines freshChart)))"
    by (simp_all add: freshChart_def arch_def)
  have n: "\<not> gradientColored nestedChart" "strokePolylines nestedChart \<noteq> []"
    "2 \<le> length (points_of (last (strokePolylines nestedChart)))"
    by (simp_all add: nestedChart_def arch_def)
  have lf: "points_of (last (strokePolylines freshChart)) = arch"
    "directChild (last (strokePolylines freshChart)) = True"
    by (simp_all add: freshChart_def)
  have ln: "points_of (last (strokePolylines nestedChart)) = arch"
    "directChild (last (strokePolylines nestedChart)) = False"
    by (simp_all add: nestedChart_def)
  note a = processElevationSVG_polygons[OF f, of defaultSettings upDownData,
      unfolded lf colorSegments_upDown]
  note b = processElevationSVG_polygons[OF n, of defaultSettings upDownData,
      unfolded ln colorSegments_upDown_detached]
  note c = processElevationSVG_polygons[OF f, of noStops upDownData,
      unfolded lf colorSegments_upDown_noStops]
  show ?thesis
    unfolding map_option_polygons a b c lf ln by simp
qed

text \<open>
  Claim C9, amended. Take two runs of \<open>processElevationSVG\<close> on charts not yet coloured,
  with the same route data, the same points of the active polyline, and the active
  polyline in the same position (a child of the chart element in both, or in neither).
  If both runs have settings with seven colour stops and a nonzero band width, they leave
  the same sequence of gradient samples, each with its pair of points and its gradient,
  and they end the same way, whatever the colours and the band width are and whatever
  polygons and older polylines the charts held before: the samples are those of the
  segment loop on the points of the active polyline, under either run's settings. Running
  it again on its own result changes nothing.
\<close>

theorem processElevationSVG_gradients_agree:
  assumes "settings_distance st1 \<noteq> 0" and "length (colorStops st1) = 7"
    and "settings_distance st2 \<noteq> 0" and "length (colorStops st2) = 7"
    and "\<not> gradientColored s1" and "\<not> gradientColored s2"
    and "strokePolylines s1 \<noteq> []" and "strokePolylines s2 \<noteq> []"
    and "points_of (last (strokePolylines s1)) = points_of (last (strokePolylines s2))"
    and "directChild (last (strokePolylines s1)) = directChild (last (strokePolylines s2))"
    and "2 \<le> length (points_of (last (strokePolylines s1)))"
  shows "map_option (map sampleOf \<circ> polygons) (fst (processElevationSVG st1 (Some rd) (Some s1)))
           = map_option (map sampleOf \<circ> polygons) (fst (processElevationSVG st2 (Some rd) (Some s2)))
       \<and> map_option (map sampleOf \<circ> polygons) (fst (processElevationSVG st1 (Some rd) (Some s1)))
           = Some (map sampleOf (fst (colorSegments st2 rd (directChild (last (strokePolylines s2)))
                                        (points_of (last (strokePolylines s2))))))
       \<and> map_option (map gradient \<circ> polygons) (fst (processElevationSVG st1 (Some rd) (Some s1)))
           = map_option (map gradient \<circ> polygons) (fst (processElevationSVG st2 (Some rd) (Some s2)))
       \<and> snd (processElevationSVG st1 (Some rd) (Some s1))
           = snd (processElevationSVG st2 (Some rd) (Some s2))
       \<and> processElevationSVG st1 (Some rd) (fst (processElevationSVG st1 (Some rd) (Some s1)))
           = processElevationSVG st1 (Some rd) (Some s1)"
proof -
  let ?c = "directChild (last (strokePolylines s1))"
  let ?pts = "points_of (last (strokePolylines s1))"
  have l2: "2 \<le> length (points_of (last (strokePolylines s2)))" using assms(9,11) by simp
  note p1 = processElevationSVG_polygons[OF assms(5,7,11), of st1 rd]
  note p2 = processElevationSVG_polygons[OF assms(6,8) l2, of st2 rd, folded assms(9) assms(10)]
  note cs = colorSegments_settings[OF assms(1-4), of rd ?c ?pts]
  have a: "map_option (map sampleOf \<circ> polygons) (fst (processElevationSVG st1 (Some rd) (Some s1)))
           = map_option (map sampleOf \<circ> polygons) (fst (processElevationSVG st2 (Some rd) (Some s2)))"
    unfolding map_option_polygons p1(1) p2(1) using cs by simp
  have a2: "map_option (map sampleOf \<circ> polygons) (fst (processElevationSVG st1 (Some rd) (Some s1)))
           = Some (map sampleOf (fst (colorSegments st2 rd (directChild (last (strokePolylines s2)))
                                        (points_of (last (strokePolylines s2))))))"
    unfolding map_option_polygons p1(1) using cs assms(9,10) by simp
  have g: "map gradient xs = map (\<lambda>t. snd (snd t)) (map sampleOf xs)" for xs
    by (simp add: sampleOf_def)
  have b: "map_option (map gradient \<circ> polygons) (fst (processElevationSVG st1 (Some rd) (Some s1)))
           = map_option (map gradient \<circ> polygons) (fst (processElevationSVG st2 (Some rd) (Some s2)))"
    unfolding map_option_polygons p1(1) p2(1) using cs by (simp add: g)
  have c: "snd (processElevationSVG st1 (Some rd) (Some s1))
           = snd (processElevationSVG st2 (Some rd) (Some s2))"
    unfolding p1(2) p2(2) using cs by simp
  from a a2 b c processElevationSVG_again[of st1 "Some rd" "Some s1"] show ?thesis by (intro conjI)
qed

theorem processElevationSVG_gradients_agree_witness:
  "map_option (map gradient \<circ> polygons)
        (fst (processElevationSVG defaultSettings (Some upDownData) (Some staleChart)))
      = Some [Fin 10, Fin (- 10)]
   \<and> map_option (map gradient \<circ> polygons)
        (fst (processElevationSVG greySettings (Some upDownData) (Some freshChart)))
      = Some [Fin 10, Fin (- 10)]
   \<and> snd (processElevationSVG greySettings (Some upDownData) (Some freshChart)) = None
   \<and> processElevationSVG defaultSettings (Some upDownData)
        (fst (processElevationSVG defaultSettings (Some upDownData) (Some staleChart)))
      = processElevationSVG defaultSettings (Some upDownData) (Some staleChart)"
proof -
  have wf: "settings_distance defaultSettings \<noteq> 0" "length (colorStops defaultSettings) = 7"
    "settings_distance greySettings \<noteq> 0" "length (colorStops greySettings) = 7"
    by (simp_all add: defaultSettings_def greySettings_def)
  have h: "\<not> gradientColored staleChart" "\<not> gradientColored freshChart"
    "strokePolylines staleChart \<noteq> []" "strokePolylines freshChart \<noteq> []"
    "points_of (last (strokePolylines staleChart)) = points_of (last (strokePolylines freshChart))"
    "directChild (last (strokePolylines staleChart)) = directChild (last (strokePolylines freshChart))"
    "2 \<le> length (points_of (last (strokePolylines staleChart)))"
    by (simp_all add: staleChart_def freshChart_def arch_def)
  have l: "points_of (last (strokePolylines staleChart)) = arch"
    "directChild (last (strokePolylines staleChart)) = True"
    by (simp_all add: staleChart_def)
  note p = processElevationSVG_polygons[OF h(1,3,7), of defaultSettings upDownData, unfolded l]
  have a: "map_option (map gradient \<circ> polygons)
        (fst (processElevationSVG defaultSettings (Some upDownData) (Some staleChart)))
      = Some [Fin 10, Fin (- 10)]"
    unfolding map_option_polygons p(1) by (simp add: colorSegments_upDown)
  have s: "snd (processElevationSVG defaultSettings (Some upDownData) (Some staleChart)) = None"
    using p(2) by (simp add: colorSegments_upDown)
  from processElevationSVG_gradients_agree[OF wf h, of upDownData] a s
  show ?thesis by simp
qed

end
